theory Spec2Isabelle
  imports Main "HOL-Library.Word"
begin

section \<open>JavaScript values used by the route tracker\<close>

subsection \<open>Strings\<close>

text \<open>
  A JavaScript string is a sequence of 16-bit code units. Route names, descriptions,
  colours and the text kept in \<open>localStorage\<close> are all of this type. \<open>str\<close> embeds an
  ASCII literal of the source.
\<close>

type_synonym code_unit = "16 word"
type_synonym jsstring = "code_unit list"

definition str :: "string \<Rightarrow> jsstring" where
  "str s = map of_char s"

subsection \<open>Numbers\<close>

text \<open>
  The component handles finite numbers only: route ids (integers counted up from 1) and
  the latitude and longitude of a click. A finite Number is identified here by what
  ECMAScript's \<open>Number::toString\<close> reads off it: its sign and the integers \<open>s\<close> and \<open>n\<close>
  such that the value is \<open>s * 10 ^ (n - k)\<close>, where \<open>k\<close> is the number of decimal digits
  of \<open>s\<close> and \<open>k\<close> is as small as possible (so \<open>s\<close> does not end in the digit 0). Zero is
  \<open>Num False 0 0\<close>; JavaScript's \<open>-0\<close>, which \<open>===\<close> and \<open>JSON.stringify\<close> do not
  tell apart from \<open>0\<close>, is identified with it.
\<close>

datatype jsnum = Num (negative: bool) (significand: nat) (point: int)

definition canonical :: "jsnum \<Rightarrow> bool" where
  "canonical x =
     (if significand x = 0 then \<not> negative x \<and> point x = 0 else significand x mod 10 \<noteq> 0)"

fun digits_of :: "nat \<Rightarrow> nat list" where
  "digits_of n = (if n < 10 then [n] else digits_of (n div 10) @ [n mod 10])"

declare digits_of.simps [simp del]

fun strip10 :: "nat \<Rightarrow> nat" where
  "strip10 s = (if s \<noteq> 0 \<and> s mod 10 = 0 then strip10 (s div 10) else s)"

declare strip10.simps [simp del]

definition digit_unit :: "nat \<Rightarrow> code_unit" where
  "digit_unit d = of_nat (48 + d)"

definition decimal :: "nat \<Rightarrow> jsstring" where
  "decimal n = map digit_unit (digits_of n)"

text \<open>The Number whose value is the integer \<open>i\<close>.\<close>

definition num_of_int :: "int \<Rightarrow> jsnum" where
  "num_of_int i =
     (if i = 0 then Num False 0 0
      else Num (i < 0) (strip10 (nat \<bar>i\<bar>)) (int (length (digits_of (nat \<bar>i\<bar>)))))"

text \<open>
  Addition of two Numbers that hold integers: the exact sum, rounded to the nearest
  double, ties to the even significand. Every integer up to \<open>2 ^ 53\<close> in absolute value
  is a double; beyond, the doubles are the multiples of \<open>2 ^ (b - 53)\<close> for a sum of \<open>b\<close>
  bits. (Sums beyond the largest double, which give \<open>Infinity\<close>, do not arise from ids.)
\<close>

fun bit_length :: "nat \<Rightarrow> nat" where
  "bit_length n = (if n = 0 then 0 else Suc (bit_length (n div 2)))"

declare bit_length.simps [simp del]

definition round_to_double :: "int \<Rightarrow> int" where
  "round_to_double x =
     (let a = nat \<bar>x\<bar> in
      if a \<le> 2 ^ 53 then x
      else
        let u = 2 ^ (bit_length a - 53); q = a div u; r = a mod u in
        sgn x * int (if 2 * r < u \<or> (2 * r = u \<and> even q) then q * u else (q + 1) * u))"

definition number_add :: "int \<Rightarrow> int \<Rightarrow> int" where
  "number_add a b = round_to_double (a + b)"

text \<open>
  \<open>Number::toString\<close> (radix 10) of ECMAScript, steps 5 to 9 on \<open>k\<close>, \<open>n\<close> and the digits
  of \<open>s\<close>: plain integer, decimal point inside the digits, leading \<open>0.\<close>, and the two
  exponential forms.
\<close>

definition Number_toString :: "jsnum \<Rightarrow> jsstring" where
  "Number_toString x =
     (if significand x = 0 then str ''0''
      else
        let ds = decimal (significand x); k = int (length ds); n = point x in
        (if negative x then str ''-'' else []) @
        (if k \<le> n \<and> n \<le> 21 then ds @ replicate (nat (n - k)) (digit_unit 0)
         else if 0 < n \<and> n \<le> 21 then take (nat n) ds @ str ''.'' @ drop (nat n) ds
         else if - 6 < n \<and> n \<le> 0 then str ''0.'' @ replicate (nat (- n)) (digit_unit 0) @ ds
         else (if k = 1 then ds else take 1 ds @ str ''.'' @ drop 1 ds) @ str ''e'' @
              (if 0 < n - 1 then str ''+'' else str ''-'') @ decimal (nat \<bar>n - 1\<bar>)))"

subsection \<open>JSON values and \<open>JSON.stringify\<close>\<close>

text \<open>
  The values \<open>JSON.parse\<close> can return. The members of an object are kept in property
  order, which is the order \<open>JSON.stringify\<close> writes them in.
\<close>

datatype json =
    JNull
  | JBool bool
  | JNum jsnum
  | JStr jsstring
  | JArr "json list"
  | JObj "(jsstring \<times> json) list"

definition hex_unit :: "nat \<Rightarrow> code_unit" where
  "hex_unit d = (if d < 10 then of_nat (48 + d) else of_nat (87 + d))"

definition UnicodeEscape :: "code_unit \<Rightarrow> jsstring" where
  "UnicodeEscape c =
     (let n = unat c in
      [0x5C, 0x75, hex_unit (n div 4096), hex_unit (n div 256 mod 16),
       hex_unit (n div 16 mod 16), hex_unit (n mod 16)])"

definition is_lead :: "code_unit \<Rightarrow> bool" where
  "is_lead c = (0xD800 \<le> c \<and> c \<le> 0xDBFF)"

definition is_trail :: "code_unit \<Rightarrow> bool" where
  "is_trail c = (0xDC00 \<le> c \<and> c \<le> 0xDFFF)"

text \<open>
  One code point of \<open>QuoteJSONString\<close> that is a single code unit: the seven two-character
  escapes, \<open>\uXXXX\<close> for the other control characters and for a surrogate that is not
  part of a pair, the code unit itself otherwise.
\<close>

definition quote_unit :: "code_unit \<Rightarrow> jsstring" where
  "quote_unit c =
     (if c = 0x08 then [0x5C, 0x62]
      else if c = 0x09 then [0x5C, 0x74]
      else if c = 0x0A then [0x5C, 0x6E]
      else if c = 0x0C then [0x5C, 0x66]
      else if c = 0x0D then [0x5C, 0x72]
      else if c = 0x22 then [0x5C, 0x22]
      else if c = 0x5C then [0x5C, 0x5C]
      else if c < 0x20 \<or> is_lead c \<or> is_trail c then UnicodeEscape c
      else [c])"

fun quote_units :: "jsstring \<Rightarrow> jsstring" where
  "quote_units [] = []"
| "quote_units [c] = quote_unit c"
| "quote_units (c # d # cs) =
     (if is_lead c \<and> is_trail d then c # d # quote_units cs
      else quote_unit c @ quote_units (d # cs))"

definition QuoteJSONString :: "jsstring \<Rightarrow> jsstring" where
  "QuoteJSONString s = [0x22] @ quote_units s @ [0x22]"

fun stringify :: "json \<Rightarrow> jsstring"
  and stringify_elements :: "json list \<Rightarrow> jsstring"
  and stringify_members :: "(jsstring \<times> json) list \<Rightarrow> jsstring"
where
  "stringify JNull = str ''null''"
| "stringify (JBool b) = (if b then str ''true'' else str ''false'')"
| "stringify (JNum x) = Number_toString x"
| "stringify (JStr s) = QuoteJSONString s"
| "stringify (JArr vs) = str ''['' @ stringify_elements vs @ str '']''"
| "stringify (JObj ps) = str ''{'' @ stringify_members ps @ str ''}''"
| "stringify_elements [] = []"
| "stringify_elements [v] = stringify v"
| "stringify_elements (v # w # vs) = stringify v @ str '','' @ stringify_elements (w # vs)"
| "stringify_members [] = []"
| "stringify_members [(k, v)] = QuoteJSONString k @ str '':'' @ stringify v"
| "stringify_members ((k, v) # p # ps) =
     QuoteJSONString k @ str '':'' @ stringify v @ str '','' @ stringify_members (p # ps)"

subsection \<open>\<open>JSON.parse\<close>\<close>

text \<open>
  The JSON grammar of ECMAScript: white space is space, tab, line feed and carriage
  return; a string holds any code unit from \<open>0x20\<close> on except the quote and the
  backslash, and the escapes \<open>\" \\ \/ \b \f \n \r \t \uXXXX\<close>.
\<close>

definition is_ws :: "code_unit \<Rightarrow> bool" where
  "is_ws c = (c = 0x20 \<or> c = 0x09 \<or> c = 0x0A \<or> c = 0x0D)"

definition skip_ws :: "jsstring \<Rightarrow> jsstring" where
  "skip_ws s = dropWhile is_ws s"

definition is_digit :: "code_unit \<Rightarrow> bool" where
  "is_digit c = (0x30 \<le> c \<and> c \<le> 0x39)"

definition nat_of_digits :: "jsstring \<Rightarrow> nat" where
  "nat_of_digits ds = foldl (\<lambda>a c. 10 * a + (unat c - 48)) 0 ds"

definition hex_val :: "code_unit \<Rightarrow> nat option" where
  "hex_val c =
     (if 0x30 \<le> c \<and> c \<le> 0x39 then Some (unat c - 48)
      else if 0x61 \<le> c \<and> c \<le> 0x66 then Some (unat c - 87)
      else if 0x41 \<le> c \<and> c \<le> 0x46 then Some (unat c - 55)
      else None)"

definition unescape :: "code_unit \<Rightarrow> code_unit option" where
  "unescape e =
     (if e = 0x22 then Some 0x22
      else if e = 0x5C then Some 0x5C
      else if e = 0x2F then Some 0x2F
      else if e = 0x62 then Some 0x08
      else if e = 0x66 then Some 0x0C
      else if e = 0x6E then Some 0x0A
      else if e = 0x72 then Some 0x0D
      else if e = 0x74 then Some 0x09
      else None)"

definition hex4 :: "code_unit \<Rightarrow> code_unit \<Rightarrow> code_unit \<Rightarrow> code_unit \<Rightarrow> code_unit option" where
  "hex4 a b c d =
     (case (hex_val a, hex_val b, hex_val c, hex_val d) of
        (Some h3, Some h2, Some h1, Some h0) \<Rightarrow> Some (of_nat (((h3 * 16 + h2) * 16 + h1) * 16 + h0))
      | _ \<Rightarrow> None)"

definition cons_unit :: "code_unit \<Rightarrow> (jsstring \<times> jsstring) option \<Rightarrow> (jsstring \<times> jsstring) option" where
  "cons_unit c r = (case r of None \<Rightarrow> None | Some (s, rest) \<Rightarrow> Some (c # s, rest))"

fun scan_string :: "jsstring \<Rightarrow> (jsstring \<times> jsstring) option" where
  "scan_string [] = None"
| "scan_string (c # cs) =
     (if c = 0x22 then Some ([], cs)
      else if c = 0x5C then
        (case cs of
           [] \<Rightarrow> None
         | e # es \<Rightarrow>
             if e = 0x75 then
               (case es of
                  h3 # h2 # h1 # h0 # rest \<Rightarrow>
                    (case hex4 h3 h2 h1 h0 of
                       None \<Rightarrow> None
                     | Some u \<Rightarrow> cons_unit u (scan_string rest))
                | _ \<Rightarrow> None)
             else
               (case unescape e of
                  None \<Rightarrow> None
                | Some u \<Rightarrow> cons_unit u (scan_string es)))
      else if c < 0x20 then None
      else cons_unit c (scan_string cs))"

declare scan_string.simps [simp del]

text \<open>
  A JSON number: optional \<open>-\<close>, then \<open>0\<close> or a digit sequence not starting with \<open>0\<close>,
  an optional fraction and an optional exponent. The number read is kept as the exact
  decimal of the text. ECMAScript then rounds to the nearest double; that step is not
  modelled, and it leaves a text written by \<open>Number::toString\<close> on the Number it was
  written from.
\<close>

definition make_number :: "bool \<Rightarrow> jsstring \<Rightarrow> jsstring \<Rightarrow> int \<Rightarrow> jsnum" where
  "make_number neg ip fp ex =
     (let s = nat_of_digits (ip @ fp) in
      if s = 0 then Num False 0 0
      else Num neg (strip10 s) (int (length (digits_of s)) + ex - int (length fp)))"

definition scan_exponent :: "jsstring \<Rightarrow> (int \<times> jsstring) option" where
  "scan_exponent s =
     (case s of
        [] \<Rightarrow> Some (0, s)
      | c # cs \<Rightarrow>
          if c = 0x65 \<or> c = 0x45 then
            (let minus = (case cs of [] \<Rightarrow> False | d # _ \<Rightarrow> d = 0x2D);
                 ds = (case cs of [] \<Rightarrow> [] | d # ds' \<Rightarrow> if d = 0x2B \<or> d = 0x2D then ds' else cs);
                 ep = takeWhile is_digit ds in
             if ep = [] then None
             else Some ((if minus then - int (nat_of_digits ep) else int (nat_of_digits ep)),
                        dropWhile is_digit ds))
          else Some (0, s))"

definition scan_fraction :: "jsstring \<Rightarrow> (jsstring \<times> jsstring) option" where
  "scan_fraction s =
     (case s of
        [] \<Rightarrow> Some ([], s)
      | c # cs \<Rightarrow>
          if c = 0x2E then
            (if takeWhile is_digit cs = [] then None
             else Some (takeWhile is_digit cs, dropWhile is_digit cs))
          else Some ([], s))"

definition scan_unsigned :: "bool \<Rightarrow> jsstring \<Rightarrow> (jsnum \<times> jsstring) option" where
  "scan_unsigned neg s =
     (let ip = takeWhile is_digit s in
      if ip = [] \<or> (1 < length ip \<and> hd ip = 0x30) then None
      else
        (case scan_fraction (dropWhile is_digit s) of
           None \<Rightarrow> None
         | Some (fp, s2) \<Rightarrow>
             (case scan_exponent s2 of
                None \<Rightarrow> None
              | Some (ex, s3) \<Rightarrow> Some (make_number neg ip fp ex, s3))))"

definition scan_number :: "jsstring \<Rightarrow> (jsnum \<times> jsstring) option" where
  "scan_number s =
     (case s of
        [] \<Rightarrow> None
      | c # cs \<Rightarrow> if c = 0x2D then scan_unsigned True cs else scan_unsigned False s)"

text \<open>
  The property order of an object: array indices first, in ascending order, then the
  other keys in the order of their creation. A key that is already there keeps its place
  and takes the new value.
\<close>

definition array_index :: "jsstring \<Rightarrow> nat option" where
  "array_index k =
     (if k \<noteq> [] \<and> list_all is_digit k \<and> (length k = 1 \<or> hd k \<noteq> 0x30)
         \<and> nat_of_digits k < 4294967295
      then Some (nat_of_digits k) else None)"

fun insert_index :: "nat \<Rightarrow> jsstring \<times> json \<Rightarrow> (jsstring \<times> json) list \<Rightarrow> (jsstring \<times> json) list" where
  "insert_index i p [] = [p]"
| "insert_index i p (q # qs) =
     (case array_index (fst q) of
        None \<Rightarrow> p # q # qs
      | Some j \<Rightarrow> if j < i then q # insert_index i p qs else p # q # qs)"

definition CreateDataProperty :: "(jsstring \<times> json) list \<Rightarrow> jsstring \<times> json \<Rightarrow> (jsstring \<times> json) list" where
  "CreateDataProperty ps p =
     (if fst p \<in> fst ` set ps then map (\<lambda>q. if fst q = fst p then p else q) ps
      else case array_index (fst p) of
             None \<Rightarrow> ps @ [p]
           | Some i \<Rightarrow> insert_index i p ps)"

text \<open>
  The recursive descent over values, array elements and object members. The first
  argument bounds the number of nested calls; \<open>JSON_parse\<close> below starts with more than
  any text can use, so that running out does not happen there.
\<close>

datatype 'a outcome = Parsed 'a jsstring | Malformed | Exhausted

fun parse_value :: "nat \<Rightarrow> jsstring \<Rightarrow> json outcome"
  and parse_elements :: "nat \<Rightarrow> jsstring \<Rightarrow> json list outcome"
  and parse_members :: "nat \<Rightarrow> jsstring \<Rightarrow> (jsstring \<times> json) list outcome"
where
  "parse_value 0 s = Exhausted"
| "parse_value (Suc f) s =
     (case skip_ws s of
        [] \<Rightarrow> Malformed
      | c # cs \<Rightarrow>
          if c = 0x5B then
            (case skip_ws cs of
               [] \<Rightarrow> Malformed
             | d # ds \<Rightarrow>
                 if d = 0x5D then Parsed (JArr []) ds
                 else (case parse_elements f cs of
                         Parsed vs r \<Rightarrow> Parsed (JArr vs) r
                       | Malformed \<Rightarrow> Malformed
                       | Exhausted \<Rightarrow> Exhausted))
          else if c = 0x7B then
            (case skip_ws cs of
               [] \<Rightarrow> Malformed
             | d # ds \<Rightarrow>
                 if d = 0x7D then Parsed (JObj []) ds
                 else (case parse_members f cs of
                         Parsed ps r \<Rightarrow> Parsed (JObj (foldl CreateDataProperty [] ps)) r
                       | Malformed \<Rightarrow> Malformed
                       | Exhausted \<Rightarrow> Exhausted))
          else if c = 0x22 then
            (case scan_string cs of
               None \<Rightarrow> Malformed
             | Some (x, r) \<Rightarrow> Parsed (JStr x) r)
          else if take 4 (c # cs) = str ''true'' then Parsed (JBool True) (drop 4 (c # cs))
          else if take 5 (c # cs) = str ''false'' then Parsed (JBool False) (drop 5 (c # cs))
          else if take 4 (c # cs) = str ''null'' then Parsed JNull (drop 4 (c # cs))
          else
            (case scan_number (c # cs) of
               None \<Rightarrow> Malformed
             | Some (x, r) \<Rightarrow> Parsed (JNum x) r))"
| "parse_elements 0 s = Exhausted"
| "parse_elements (Suc f) s =
     (case parse_value f s of
        Parsed v r \<Rightarrow>
          (case skip_ws r of
             [] \<Rightarrow> Malformed
           | c # cs \<Rightarrow>
               if c = 0x2C then
                 (case parse_elements f cs of
                    Parsed vs r' \<Rightarrow> Parsed (v # vs) r'
                  | Malformed \<Rightarrow> Malformed
                  | Exhausted \<Rightarrow> Exhausted)
               else if c = 0x5D then Parsed [v] cs
               else Malformed)
      | Malformed \<Rightarrow> Malformed
      | Exhausted \<Rightarrow> Exhausted)"
| "parse_members 0 s = Exhausted"
| "parse_members (Suc f) s =
     (case skip_ws s of
        [] \<Rightarrow> Malformed
      | q # qs \<Rightarrow>
          if q = 0x22 then
            (case scan_string qs of
               None \<Rightarrow> Malformed
             | Some (k, r) \<Rightarrow>
                 (case skip_ws r of
                    [] \<Rightarrow> Malformed
                  | c # cs \<Rightarrow>
                      if c = 0x3A then
                        (case parse_value f cs of
                           Parsed v r' \<Rightarrow>
                             (case skip_ws r' of
                                [] \<Rightarrow> Malformed
                              | d # ds \<Rightarrow>
                                  if d = 0x2C then
                                    (case parse_members f ds of
                                       Parsed ps r'' \<Rightarrow> Parsed ((k, v) # ps) r''
                                     | Malformed \<Rightarrow> Malformed
                                     | Exhausted \<Rightarrow> Exhausted)
                                  else if d = 0x7D then Parsed [(k, v)] ds
                                  else Malformed)
                         | Malformed \<Rightarrow> Malformed
                         | Exhausted \<Rightarrow> Exhausted)
                      else Malformed))
          else Malformed)"

declare parse_value.simps [simp del] parse_elements.simps [simp del]
  parse_members.simps [simp del]

text \<open>
  The two exceptions of the component: \<open>JSON.parse\<close> throws a \<open>SyntaxError\<close>, and calling
  \<open>routes.map\<close> on a value that has no such method throws a \<open>TypeError\<close>.
\<close>

datatype error = SyntaxError | TypeError

definition JSON_parse :: "jsstring \<Rightarrow> error + json" where
  "JSON_parse s =
     (case parse_value (2 * length s + 1) s of
        Parsed v r \<Rightarrow> if skip_ws r = [] then Inr v else Inl SyntaxError
      | Malformed \<Rightarrow> Inl SyntaxError
      | Exhausted \<Rightarrow> Inl SyntaxError)"

subsection \<open>Values that survive their own text\<close>

text \<open>
  What may follow a value in a text written by \<open>JSON.stringify\<close>: nothing, a comma, or a
  closing bracket or brace.
\<close>

definition delimited :: "jsstring \<Rightarrow> bool" where
  "delimited r = (case r of [] \<Rightarrow> True | c # _ \<Rightarrow> c = 0x2C \<or> c = 0x5D \<or> c = 0x7D)"

text \<open>
  The values considered for the round trip: every number is given by its canonical
  triple, and the keys of an object are distinct and none is an array index, so that
  the property order is the order of creation.
\<close>

fun well_formed :: "json \<Rightarrow> bool"
  and well_formed_elements :: "json list \<Rightarrow> bool"
  and well_formed_members :: "(jsstring \<times> json) list \<Rightarrow> bool"
where
  "well_formed JNull = True"
| "well_formed (JBool b) = True"
| "well_formed (JNum x) = canonical x"
| "well_formed (JStr s) = True"
| "well_formed (JArr vs) = well_formed_elements vs"
| "well_formed (JObj ps) = (distinct (map fst ps) \<and> well_formed_members ps)"
| "well_formed_elements [] = True"
| "well_formed_elements (v # vs) = (well_formed v \<and> well_formed_elements vs)"
| "well_formed_members [] = True"
| "well_formed_members (p # ps) =
     (array_index (fst p) = None \<and> well_formed (snd p) \<and> well_formed_members ps)"

section \<open>The route store of \<open>BoundaryWatersMap\<close>\<close>

subsection \<open>Data\<close>

text \<open>
  A route object \<open>{id, name, color, description, waypoints}\<close>; a waypoint is the
  two-element array \<open>[lat, lng]\<close>. The id is a Number that only ever holds integers
  (1 at mount, \<open>id + 1\<close> afterwards); it is kept as that integer, and \<open>id + 1\<close> is the
  addition of Numbers, \<open>number_add\<close>.
\<close>

record route =
  route_id :: int
  name :: jsstring
  color :: jsstring
  description :: jsstring
  waypoints :: "(jsnum \<times> jsnum) list"

text \<open>The \<open>latlng\<close> object of a map click event.\<close>

record latlng =
  lat :: jsnum
  lng :: jsnum

text \<open>
  The four \<open>useState\<close> cells of the component, together with the two parts of the browser
  it acts on: the \<open>localStorage\<close> of the origin and the messages shown by \<open>alert\<close>.
\<close>

record state =
  routes :: "route list"
  currentRoute :: route
  isRecording :: bool
  selectedRoute :: "route option"
  localStorage :: "jsstring \<rightharpoonup> jsstring"
  alerts :: "jsstring list"

definition storage_key :: jsstring where
  "storage_key = str ''boundaryWatersRoutes''"

text \<open>The JSON value of the \<open>routes\<close> array, with the properties in creation order.\<close>

definition json_of_waypoint :: "jsnum \<times> jsnum \<Rightarrow> json" where
  "json_of_waypoint p = JArr [JNum (fst p), JNum (snd p)]"

definition json_of_route :: "route \<Rightarrow> json" where
  "json_of_route r =
     JObj [(str ''id'', JNum (num_of_int (route_id r))),
           (str ''name'', JStr (name r)),
           (str ''color'', JStr (color r)),
           (str ''description'', JStr (description r)),
           (str ''waypoints'', JArr (map json_of_waypoint (waypoints r)))]"

definition json_of_routes :: "route list \<Rightarrow> json" where
  "json_of_routes rs = JArr (map json_of_route rs)"

text \<open>The coordinates of a route are given by canonical triples.\<close>

definition canonical_waypoint :: "jsnum \<times> jsnum \<Rightarrow> bool" where
  "canonical_waypoint p = (canonical (fst p) \<and> canonical (snd p))"

definition canonical_route :: "route \<Rightarrow> bool" where
  "canonical_route r = list_all canonical_waypoint (waypoints r)"

subsection \<open>Operations\<close>

text \<open>
  \<open>getRandomColor\<close>: six times, one of the sixteen letters is appended to \<open>#\<close>. The
  argument gives \<open>Math.floor(Math.random() * 16)\<close> for each round of the loop; it is a
  4-bit value because \<open>Math.random()\<close> lies in \<open>[0, 1)\<close>.
\<close>

definition letters :: jsstring where
  "letters = str ''0123456789ABCDEF''"

definition getRandomColor :: "(nat \<Rightarrow> 4 word) \<Rightarrow> jsstring" where
  "getRandomColor random =
     foldl (\<lambda>color i. color @ [letters ! unat (random i)]) (str ''#'') [0..<6]"

text \<open>The state of the first render, before the effects have run.\<close>

definition initial :: "(nat \<Rightarrow> 4 word) \<Rightarrow> (jsstring \<rightharpoonup> jsstring) \<Rightarrow> state" where
  "initial random store =
     \<lparr>routes = [],
      currentRoute = \<lparr>route_id = 1, name = str ''Route 1'', color = getRandomColor random,
                      description = [], waypoints = []\<rparr>,
      isRecording = False,
      selectedRoute = None,
      localStorage = store,
      alerts = []\<rparr>"

text \<open>
  The effect with dependency \<open>[routes]\<close>. It runs after every render in which \<open>routes\<close> is
  a new array; \<open>handleSaveRoute\<close> and \<open>handleDeleteRoute\<close> are the two handlers that call
  \<open>setRoutes\<close>, and both pass a freshly built array.
\<close>

definition persist :: "state \<Rightarrow> state" where
  "persist w =
     w\<lparr>localStorage := (localStorage w)(storage_key \<mapsto> stringify (json_of_routes (routes w)))\<rparr>"

text \<open>
  The effect that runs once at mount: \<open>getItem\<close>, and if the text is truthy (neither
  \<open>null\<close> nor the empty string) \<open>setRoutes(JSON.parse(savedRoutes))\<close>. The result is the
  value of \<open>routes\<close> after the effect, or the exception that \<open>JSON.parse\<close> throws out
  of it; the source has no handler around the call.
\<close>

definition load :: "(jsstring \<rightharpoonup> jsstring) \<Rightarrow> error + json" where
  "load store =
     (case store storage_key of
        None \<Rightarrow> Inr (JArr [])
      | Some savedRoutes \<Rightarrow>
          if savedRoutes = [] then Inr (JArr [])
          else (case JSON_parse savedRoutes of
                  Inl e \<Rightarrow> Inl e
                | Inr v \<Rightarrow> Inr v))"

text \<open>
  Reading a loaded value the way the component reads its routes, by property name:
  \<open>route.id\<close>, \<open>route.name\<close>, \<open>route.color\<close>, \<open>route.description\<close>, \<open>route.waypoints\<close>
  and the two numbers of each waypoint. The id is read as the integer the Number holds.
\<close>

definition int_of_num :: "jsnum \<Rightarrow> int option" where
  "int_of_num x =
     (let k = int (length (digits_of (significand x))) in
      if significand x = 0 then Some 0
      else if k \<le> point x
      then Some ((if negative x then - 1 else 1) * int (significand x) * 10 ^ nat (point x - k))
      else None)"

definition waypoint_of_json :: "json \<Rightarrow> (jsnum \<times> jsnum) option" where
  "waypoint_of_json v =
     (case v of
        JArr [JNum a, JNum b] \<Rightarrow> Some (a, b)
      | _ \<Rightarrow> None)"

definition property :: "json \<Rightarrow> string \<Rightarrow> json option" where
  "property v k = (case v of JObj ps \<Rightarrow> map_of ps (str k) | _ \<Rightarrow> None)"

definition route_of_json :: "json \<Rightarrow> route option" where
  "route_of_json v =
     (case (property v ''id'', property v ''name'', property v ''color'',
            property v ''description'', property v ''waypoints'') of
        (Some (JNum i), Some (JStr n), Some (JStr c), Some (JStr d), Some (JArr ws)) \<Rightarrow>
          (case (int_of_num i, those (map waypoint_of_json ws)) of
             (Some i', Some ws') \<Rightarrow>
               Some \<lparr>route_id = i', name = n, color = c, description = d, waypoints = ws'\<rparr>
           | _ \<Rightarrow> None)
      | _ \<Rightarrow> None)"

definition routes_of_json :: "json \<Rightarrow> route list option" where
  "routes_of_json v = (case v of JArr vs \<Rightarrow> those (map route_of_json vs) | _ \<Rightarrow> None)"

definition is_array :: "json \<Rightarrow> bool" where
  "is_array v = (case v of JArr vs \<Rightarrow> True | _ \<Rightarrow> False)"

text \<open>
  The component once mounted: the load effect, the render with the loaded value, and the
  effect that persists it. The render calls \<open>routes.map\<close> (line 127), which raises a
  \<open>TypeError\<close> on every JSON value that is not an array. An array that consists of route
  objects and of nothing else becomes the saved collection of the state. What the map
  widget does with an array of anything else is outside this model. The numbers of the
  loaded value are the exact decimals of the text, as \<open>make_number\<close> reads them.
\<close>

datatype mounting = Raised error | Mounted state | Unmodelled

definition mount :: "(nat \<Rightarrow> 4 word) \<Rightarrow> (jsstring \<rightharpoonup> jsstring) \<Rightarrow> mounting" where
  "mount random store =
     (case load store of
        Inl e \<Rightarrow> Raised e
      | Inr v \<Rightarrow>
          if is_array v then
            (case routes_of_json v of
               None \<Rightarrow> Unmodelled
             | Some rs \<Rightarrow>
                 if json_of_routes rs = v
                 then Mounted ((initial random store)
                        \<lparr>routes := rs,
                         localStorage := store(storage_key \<mapsto> stringify v)\<rparr>)
                 else Unmodelled)
          else Raised TypeError)"

definition handleAddWaypoint :: "latlng \<Rightarrow> state \<Rightarrow> state" where
  "handleAddWaypoint p w =
     (if isRecording w
      then w\<lparr>currentRoute :=
               (currentRoute w)\<lparr>waypoints := waypoints (currentRoute w) @ [(lat p, lng p)]\<rparr>\<rparr>
      else w)"

definition handleSaveRoute :: "(nat \<Rightarrow> 4 word) \<Rightarrow> state \<Rightarrow> state" where
  "handleSaveRoute random w =
     (if length (waypoints (currentRoute w)) < 2
      then w\<lparr>alerts := alerts w @ [str ''A route must have at least 2 waypoints!'']\<rparr>
      else persist
        (w\<lparr>routes := routes w @ [currentRoute w],
           currentRoute :=
             \<lparr>route_id = number_add (route_id (currentRoute w)) 1,
              name = str ''Route '' @
                Number_toString (num_of_int (number_add (route_id (currentRoute w)) 1)),
              color = getRandomColor random,
              description = [],
              waypoints = []\<rparr>,
           isRecording := False\<rparr>))"

definition handleDeleteRoute :: "int \<Rightarrow> state \<Rightarrow> state" where
  "handleDeleteRoute routeId w =
     persist (w\<lparr>routes := filter (\<lambda>route. route_id route \<noteq> routeId) (routes w),
                selectedRoute := None\<rparr>)"

text \<open>
  \<open>handleRouteInfoChange\<close> is the \<open>onChange\<close> of two inputs, whose \<open>name\<close> attributes are
  \<open>name\<close> and \<open>description\<close>.
\<close>

datatype input = NameInput | DescriptionInput

definition handleRouteInfoChange :: "input \<Rightarrow> jsstring \<Rightarrow> state \<Rightarrow> state" where
  "handleRouteInfoChange target v w =
     (case target of
        NameInput \<Rightarrow> w\<lparr>currentRoute := (currentRoute w)\<lparr>name := v\<rparr>\<rparr>
      | DescriptionInput \<Rightarrow> w\<lparr>currentRoute := (currentRoute w)\<lparr>description := v\<rparr>\<rparr>)"

text \<open>The record button: \<open>setIsRecording(!isRecording)\<close>.\<close>

definition toggleRecording :: "state \<Rightarrow> state" where
  "toggleRecording w = w\<lparr>isRecording := \<not> isRecording w\<rparr>"

text \<open>A click on a drawn route or on its entry in the list: \<open>setSelectedRoute(route)\<close>.\<close>

definition selectRoute :: "route \<Rightarrow> state \<Rightarrow> state" where
  "selectRoute r w = w\<lparr>selectedRoute := Some r\<rparr>"

subsection \<open>Sessions\<close>

text \<open>
  A session is a sequence of user events, each handled to completion before the next.
  The handlers are applied whatever the state, also where the interface hides or
  disables the control.
\<close>

datatype event =
    RecordButton
  | MapClick latlng
  | SaveButton "nat \<Rightarrow> 4 word"
  | DeleteButton int
  | InputChange input jsstring
  | RouteClick route

fun step :: "event \<Rightarrow> state \<Rightarrow> state" where
  "step RecordButton w = toggleRecording w"
| "step (MapClick p) w = handleAddWaypoint p w"
| "step (SaveButton random) w = handleSaveRoute random w"
| "step (DeleteButton routeId) w = handleDeleteRoute routeId w"
| "step (InputChange target v) w = handleRouteInfoChange target v w"
| "step (RouteClick r) w = selectRoute r w"

fun run :: "event list \<Rightarrow> state \<Rightarrow> state" where
  "run [] w = w"
| "run (e # es) w = run es (step e w)"

text \<open>
  The in-progress routes a session creates: \<open>handleSaveRoute\<close> builds a new one each time
  it passes its check, and nothing else does.
\<close>

fun created :: "event list \<Rightarrow> state \<Rightarrow> route list" where
  "created [] w = []"
| "created (SaveButton random # es) w =
     (if length (waypoints (currentRoute w)) < 2 then created es (step (SaveButton random) w)
      else currentRoute (step (SaveButton random) w) # created es (step (SaveButton random) w))"
| "created (e # es) w = created es (step e w)"

subsection \<open>The saved-collection invariant and an example session\<close>

definition saved_ok :: "state \<Rightarrow> bool" where
  "saved_ok w = list_all (\<lambda>r. 2 \<le> length (waypoints r)) (routes w)"

text \<open>
  The scenario of the specification: mount on empty storage, start recording, click
  (47.9, -91.8) and (47.91, -91.81), save, then select the saved route.
\<close>

definition zero_random :: "nat \<Rightarrow> 4 word" where
  "zero_random i = 0"

definition click1 :: latlng where
  "click1 = \<lparr>lat = Num False 479 2, lng = Num True 918 2\<rparr>"

definition click2 :: latlng where
  "click2 = \<lparr>lat = Num False 4791 2, lng = Num True 9181 2\<rparr>"

definition mounted :: state where
  "mounted = persist (initial zero_random Map.empty)"

definition recorded :: state where
  "recorded = run [RecordButton, MapClick click1, MapClick click2] mounted"

definition saved_once :: state where
  "saved_once = run [SaveButton zero_random] recorded"

definition selected_once :: state where
  "selected_once = run [RouteClick (currentRoute recorded)] saved_once"

text \<open>The text that the scenario leaves in \<open>localStorage\<close>, with its quotes written out.\<close>

definition quoted :: "string \<Rightarrow> jsstring" where
  "quoted s = [0x22] @ str s @ [0x22]"

definition scenario_text :: jsstring where
  "scenario_text =
     str ''[{'' @ quoted ''id'' @ str '':1,'' @ quoted ''name'' @ str '':'' @ quoted ''Route 1''
     @ str '','' @ quoted ''color'' @ str '':'' @ quoted ''#000000''
     @ str '','' @ quoted ''description'' @ str '':'' @ quoted []
     @ str '','' @ quoted ''waypoints'' @ str '':[[47.9,-91.8],[47.91,-91.81]]}]''"

lemmas handler_defs =
  toggleRecording_def handleAddWaypoint_def handleSaveRoute_def persist_def
  handleDeleteRoute_def handleRouteInfoChange_def selectRoute_def

lemmas session_defs =
  mounted_def recorded_def saved_once_def selected_once_def initial_def click1_def click2_def

section \<open>Properties of \<open>JSON.parse\<close> and \<open>JSON.stringify\<close>\<close>

subsection \<open>The parser consumes text and never runs out of calls\<close>

lemma skip_ws_Cons: "skip_ws s = c # cs \<Longrightarrow> length cs < length s"
proof -
  assume a: "skip_ws s = c # cs"
  have "length (skip_ws s) \<le> length s"
    by (simp add: skip_ws_def length_dropWhile_le)
  with a show ?thesis by simp
qed

lemma cons_unit_Some:
  "cons_unit u q = Some (x, r) \<Longrightarrow> \<exists>y. q = Some (y, r) \<and> x = u # y"
  by (auto simp: cons_unit_def split: option.splits)

lemma scan_string_length: "scan_string s = Some (x, r) \<Longrightarrow> length r < length s"
proof (induction s arbitrary: x rule: scan_string.induct)
  case 1
  then show ?case by (simp add: scan_string.simps)
next
  case (2 c cs)
  show ?case
  proof (cases "c = 0x22")
    case True
    with "2.prems" show ?thesis by (simp add: scan_string.simps)
  next
    case q: False
    show ?thesis
    proof (cases "c = 0x5C")
      case False
      with q "2.prems" have lt: "\<not> c < 0x20" and "cons_unit c (scan_string cs) = Some (x, r)"
        by (auto simp: scan_string.simps split: if_splits)
      then obtain y where "scan_string cs = Some (y, r)"
        by (auto dest: cons_unit_Some)
      with "2.IH"(3) q False lt have "length r < length cs" by blast
      then show ?thesis by simp
    next
      case b: True
      then obtain e es where cs: "cs = e # es"
        using q "2.prems" by (cases cs) (auto simp: scan_string.simps)
      show ?thesis
      proof (cases "e = 0x75")
        case False
        with q b cs "2.prems" obtain u where u: "unescape e = Some u"
          and "cons_unit u (scan_string es) = Some (x, r)"
          by (auto simp: scan_string.simps split: option.splits)
        then obtain y where "scan_string es = Some (y, r)"
          by (auto dest: cons_unit_Some)
        with "2.IH"(2) q b cs False u have "length r < length es" by blast
        with cs show ?thesis by simp
      next
        case True
        with q b cs "2.prems" obtain h3 h2 h1 h0 rest u where
          es: "es = h3 # h2 # h1 # h0 # rest" and u: "hex4 h3 h2 h1 h0 = Some u"
          and "cons_unit u (scan_string rest) = Some (x, r)"
          by (auto simp: scan_string.simps split: list.splits option.splits)
        then obtain y where "scan_string rest = Some (y, r)"
          by (auto dest: cons_unit_Some)
        with "2.IH"(1) q b cs True es u have "length r < length rest" by blast
        with cs es show ?thesis by simp
      qed
    qed
  qed
qed

lemma scan_fraction_length: "scan_fraction s = Some (fp, r) \<Longrightarrow> length r \<le> length s"
  by (auto simp: scan_fraction_def length_dropWhile_le le_SucI split: list.splits if_splits)

lemma scan_exponent_length: "scan_exponent s = Some (ex, r) \<Longrightarrow> length r \<le> length s"
  by (auto simp: scan_exponent_def Let_def length_dropWhile_le le_SucI
      intro: order_trans [OF length_dropWhile_le]
      split: list.splits if_splits)

lemma dropWhile_shorter: "takeWhile P s \<noteq> [] \<Longrightarrow> length (dropWhile P s) < length s"
  by (cases s) (auto simp: less_Suc_eq_le length_dropWhile_le split: if_splits)

lemma scan_unsigned_length: "scan_unsigned neg s = Some (x, r) \<Longrightarrow> length r < length s"
proof -
  assume a: "scan_unsigned neg s = Some (x, r)"
  then have ip: "takeWhile is_digit s \<noteq> []"
    by (auto simp: scan_unsigned_def Let_def split: if_splits)
  with a obtain fp s2 ex where f: "scan_fraction (dropWhile is_digit s) = Some (fp, s2)"
    and e: "scan_exponent s2 = Some (ex, r)"
    by (auto simp: scan_unsigned_def Let_def split: if_splits option.splits)
  have "length r \<le> length s2" using e by (rule scan_exponent_length)
  also have "\<dots> \<le> length (dropWhile is_digit s)" using f by (rule scan_fraction_length)
  also have "\<dots> < length s" using ip by (rule dropWhile_shorter)
  finally show ?thesis .
qed

lemma scan_number_length: "scan_number s = Some (x, r) \<Longrightarrow> length r < length s"
  by (auto simp: scan_number_def less_Suc_eq split: list.splits if_splits
      dest!: scan_unsigned_length)

lemma parse_progress:
  "(\<forall>s v r. parse_value f s = Parsed v r \<longrightarrow> length r < length s)
   \<and> (\<forall>s vs r. parse_elements f s = Parsed vs r \<longrightarrow> length r < length s)
   \<and> (\<forall>s ps r. parse_members f s = Parsed ps r \<longrightarrow> length r < length s)"
proof (induction f)
  case 0
  show ?case by (simp add: parse_value.simps parse_elements.simps parse_members.simps)
next
  case (Suc f)
  then have v: "\<And>s v r. parse_value f s = Parsed v r \<Longrightarrow> length r < length s"
    and e: "\<And>s vs r. parse_elements f s = Parsed vs r \<Longrightarrow> length r < length s"
    and m: "\<And>s ps r. parse_members f s = Parsed ps r \<Longrightarrow> length r < length s"
    by blast+
  have "length r < length s" if "parse_value (Suc f) s = Parsed x r" for s x r
    using that
    by (auto simp: parse_value.simps parse_elements.simps parse_members.simps
        split: list.splits if_splits outcome.splits option.splits
        dest!: skip_ws_Cons scan_string_length scan_number_length e m)
  moreover have "length r < length s" if "parse_elements (Suc f) s = Parsed x r" for s x r
    using that
    by (auto simp: parse_value.simps parse_elements.simps parse_members.simps
        split: list.splits if_splits outcome.splits option.splits
        dest!: skip_ws_Cons v e)
  moreover have "length r < length s" if "parse_members (Suc f) s = Parsed x r" for s x r
    using that
    by (auto simp: parse_value.simps parse_elements.simps parse_members.simps
        split: list.splits if_splits outcome.splits option.splits
        dest!: skip_ws_Cons scan_string_length v m)
  ultimately show ?case by blast
qed

lemma parse_fuel:
  "(\<forall>s. parse_value f s = Exhausted \<longrightarrow> f \<le> 2 * length s)
   \<and> (\<forall>s. parse_elements f s = Exhausted \<longrightarrow> f \<le> 2 * length s + 1)
   \<and> (\<forall>s. parse_members f s = Exhausted \<longrightarrow> f \<le> 2 * length s + 1)"
proof (induction f)
  case 0
  show ?case by (simp add: parse_value.simps parse_elements.simps parse_members.simps)
next
  case (Suc f)
  then have v: "\<And>s. parse_value f s = Exhausted \<Longrightarrow> f \<le> 2 * length s"
    and e: "\<And>s. parse_elements f s = Exhausted \<Longrightarrow> f \<le> 2 * length s + 1"
    and m: "\<And>s. parse_members f s = Exhausted \<Longrightarrow> f \<le> 2 * length s + 1"
    by blast+
  note p = parse_progress [of f]
  have "Suc f \<le> 2 * length s" if "parse_value (Suc f) s = Exhausted" for s
    using that
    by (auto simp: parse_value.simps parse_elements.simps parse_members.simps
        split: list.splits if_splits outcome.splits option.splits
        dest!: skip_ws_Cons e m)
  moreover have "Suc f \<le> 2 * length s + 1" if "parse_elements (Suc f) s = Exhausted" for s
    using that p
    by (fastforce simp: parse_value.simps parse_elements.simps parse_members.simps
        split: list.splits if_splits outcome.splits option.splits
        dest!: skip_ws_Cons v e)
  moreover have "Suc f \<le> 2 * length s + 1" if "parse_members (Suc f) s = Exhausted" for s
    using that p
    by (fastforce simp: parse_value.simps parse_elements.simps parse_members.simps
        split: list.splits if_splits outcome.splits option.splits
        dest!: skip_ws_Cons scan_string_length v m)
  ultimately show ?case by blast
qed

lemma JSON_parse_not_exhausted: "parse_value (2 * length s + 1) s \<noteq> Exhausted"
  using parse_fuel [of "2 * length s + 1"] by fastforce

subsection \<open>Decimal digits\<close>

lemma digits_of_nonempty: "digits_of n \<noteq> []"
  by (subst digits_of.simps) simp

lemma digits_of_small: "n < 10 \<Longrightarrow> digits_of n = [n]"
  by (subst digits_of.simps) simp

lemma digits_of_large: "10 \<le> n \<Longrightarrow> digits_of n = digits_of (n div 10) @ [n mod 10]"
  by (subst digits_of.simps) simp

lemma digits_of_bound: "d \<in> set (digits_of n) \<Longrightarrow> d < 10"
proof (induction n arbitrary: d rule: digits_of.induct)
  case (1 n)
  show ?case
  proof (cases "n < 10")
    case True
    with "1.prems" show ?thesis by (simp add: digits_of_small)
  next
    case False
    with "1.prems" have "d \<in> set (digits_of (n div 10)) \<or> d = n mod 10"
      by (auto simp: digits_of_large)
    with "1.IH" False show ?thesis by auto
  qed
qed

lemma hd_digits_of: "0 < n \<Longrightarrow> hd (digits_of n) \<noteq> 0"
proof (induction n rule: digits_of.induct)
  case (1 n)
  show ?case
  proof (cases "n < 10")
    case True
    with "1.prems" show ?thesis by (simp add: digits_of_small)
  next
    case False
    then have "0 < n div 10" by simp
    with "1.IH" False have "hd (digits_of (n div 10)) \<noteq> 0" by simp
    with False show ?thesis by (simp add: digits_of_large digits_of_nonempty)
  qed
qed

lemma unat_digit_unit: "d < 10 \<Longrightarrow> unat (digit_unit d) = 48 + d"
  unfolding digit_unit_def by (subst unat_of_nat) simp

lemma is_digit_digit_unit: "d < 10 \<Longrightarrow> is_digit (digit_unit d)"
  by (simp add: is_digit_def word_le_nat_alt unat_digit_unit)

lemma digit_unit_eq_zero: "d < 10 \<Longrightarrow> digit_unit d = 0x30 \<longleftrightarrow> d = 0"
proof -
  assume d: "d < 10"
  have "digit_unit d = 0x30 \<longleftrightarrow> unat (digit_unit d) = unat (0x30 :: code_unit)"
    by (simp only: word_unat_eq_iff)
  also have "\<dots> \<longleftrightarrow> d = 0" using d by (simp add: unat_digit_unit)
  finally show ?thesis .
qed

lemma is_digit_decimal: "c \<in> set (decimal n) \<Longrightarrow> is_digit c"
  by (auto simp: decimal_def is_digit_digit_unit digits_of_bound)

lemma decimal_nonempty: "decimal n \<noteq> []"
  by (simp add: decimal_def digits_of_nonempty)

lemma length_decimal: "length (decimal n) = length (digits_of n)"
  by (simp add: decimal_def)

lemma hd_decimal: "0 < n \<Longrightarrow> hd (decimal n) \<noteq> 0x30"
proof -
  assume n: "0 < n"
  obtain d ds where ds: "digits_of n = d # ds"
    using digits_of_nonempty [of n] by (cases "digits_of n") auto
  then have "d \<in> set (digits_of n)" by simp
  then have "d < 10" by (rule digits_of_bound)
  moreover from hd_digits_of [OF n] ds have "d \<noteq> 0" by simp
  ultimately show ?thesis using ds by (simp add: decimal_def digit_unit_eq_zero)
qed

lemma nat_of_digits_snoc:
  "nat_of_digits (cs @ [c]) = 10 * nat_of_digits cs + (unat c - 48)"
  by (simp add: nat_of_digits_def)

lemma nat_of_digits_append:
  "nat_of_digits (xs @ ys) = nat_of_digits xs * 10 ^ length ys + nat_of_digits ys"
proof (induction ys rule: rev_induct)
  case Nil
  show ?case by (simp add: nat_of_digits_def)
next
  case (snoc y ys)
  have "nat_of_digits (xs @ ys @ [y]) = 10 * nat_of_digits (xs @ ys) + (unat y - 48)"
    using nat_of_digits_snoc [of "xs @ ys" y] by simp
  with snoc show ?case by (simp add: nat_of_digits_snoc algebra_simps)
qed

lemma nat_of_digits_decimal: "nat_of_digits (decimal n) = n"
proof (induction n rule: digits_of.induct)
  case (1 n)
  show ?case
  proof (cases "n < 10")
    case True
    then show ?thesis
      by (simp add: decimal_def digits_of_small nat_of_digits_def unat_digit_unit)
  next
    case False
    with "1.IH" have ih: "nat_of_digits (decimal (n div 10)) = n div 10" by simp
    have "decimal n = decimal (n div 10) @ [digit_unit (n mod 10)]"
      using False by (simp add: decimal_def digits_of_large)
    then show ?thesis
      by (simp add: nat_of_digits_snoc ih unat_digit_unit)
  qed
qed

lemma nat_of_digits_zeros: "nat_of_digits (replicate m (digit_unit 0)) = 0"
  by (induction m) (simp_all add: nat_of_digits_def unat_digit_unit)

lemma length_digits_of_times10: "0 < s \<Longrightarrow> length (digits_of (s * 10)) = Suc (length (digits_of s))"
  by (subst digits_of.simps) simp

lemma length_digits_of_shift:
  "0 < s \<Longrightarrow> length (digits_of (s * 10 ^ m)) = length (digits_of s) + m"
proof (induction m)
  case 0
  show ?case by simp
next
  case (Suc m)
  have "s * 10 ^ Suc m = (s * 10 ^ m) * 10" by simp
  moreover have "0 < s * 10 ^ m" using Suc.prems by simp
  ultimately have "length (digits_of (s * 10 ^ Suc m)) = Suc (length (digits_of (s * 10 ^ m)))"
    using length_digits_of_times10 by presburger
  with Suc show ?case by simp
qed

lemma strip10_fixed: "s mod 10 \<noteq> 0 \<Longrightarrow> strip10 s = s"
  by (subst strip10.simps) simp

lemma strip10_shift: "s mod 10 \<noteq> 0 \<Longrightarrow> strip10 (s * 10 ^ m) = s"
proof (induction m)
  case 0
  then show ?case by (simp add: strip10_fixed)
next
  case (Suc m)
  then have "s \<noteq> 0" by auto
  then have "strip10 (s * 10 ^ Suc m) = strip10 (s * 10 ^ m)"
    by (subst strip10.simps) simp
  with Suc show ?case by simp
qed

lemma strip10_canonical: "0 < s \<Longrightarrow> strip10 s mod 10 \<noteq> 0"
proof (induction s rule: strip10.induct)
  case (1 s)
  show ?case
  proof (cases "s mod 10 = 0")
    case True
    with "1.prems" have "0 < s div 10" by auto
    with "1.IH" True "1.prems" have "strip10 (s div 10) mod 10 \<noteq> 0" by simp
    moreover have "strip10 s = strip10 (s div 10)"
      using True "1.prems" by (subst strip10.simps) simp
    ultimately show ?thesis by simp
  next
    case False
    then show ?thesis by (simp add: strip10_fixed)
  qed
qed

lemma canonical_num_of_int: "canonical (num_of_int i)"
  using strip10_canonical [of "nat \<bar>i\<bar>"] by (auto simp: canonical_def num_of_int_def)

lemma strip10_decompose: "0 < m \<Longrightarrow> \<exists>t. m = strip10 m * 10 ^ t"
proof (induction m rule: strip10.induct)
  case (1 s)
  show ?case
  proof (cases "s mod 10 = 0")
    case True
    with "1.prems" have pos: "0 < s div 10" by auto
    with "1.IH" True "1.prems" obtain t where t: "s div 10 = strip10 (s div 10) * 10 ^ t"
      by auto
    have st: "strip10 s = strip10 (s div 10)"
      using True "1.prems" by (subst strip10.simps) simp
    from True have "s = s div 10 * 10" by auto
    with t have "s = strip10 (s div 10) * 10 ^ Suc t" by simp
    with st show ?thesis by metis
  next
    case False
    then have "s = strip10 s * 10 ^ 0" by (simp add: strip10_fixed)
    then show ?thesis by blast
  qed
qed

lemma strip10_length_inject:
  assumes "0 < a" and "0 < b" and "strip10 a = strip10 b"
    and "length (digits_of a) = length (digits_of b)"
  shows "a = b"
proof -
  from strip10_decompose [OF assms(1)] obtain t where a: "a = strip10 a * 10 ^ t" by blast
  from strip10_decompose [OF assms(2)] obtain u where b: "b = strip10 b * 10 ^ u" by blast
  have pos: "0 < strip10 a" using assms(1) a by (cases "strip10 a = 0") auto
  have "length (digits_of a) = length (digits_of (strip10 a)) + t"
    using length_digits_of_shift [OF pos, of t] a by simp
  moreover have "length (digits_of b) = length (digits_of (strip10 a)) + u"
    using length_digits_of_shift [OF pos, of u] b assms(3) by simp
  ultimately have "t = u" using assms(4) by simp
  with a b assms(3) show ?thesis by simp
qed

lemma digits_of_times10: "0 < s \<Longrightarrow> digits_of (s * 10) = digits_of s @ [0]"
  by (subst digits_of.simps) simp

lemma decimal_shift:
  "0 < s \<Longrightarrow> decimal (s * 10 ^ t) = decimal s @ replicate t (digit_unit 0)"
proof (induction t)
  case 0
  show ?case by simp
next
  case (Suc t)
  then have "0 < s * 10 ^ t" by simp
  then have "digits_of ((s * 10 ^ t) * 10) = digits_of (s * 10 ^ t) @ [0]"
    by (rule digits_of_times10)
  moreover have "s * 10 ^ Suc t = (s * 10 ^ t) * 10" by simp
  ultimately have "decimal (s * 10 ^ Suc t) = decimal (s * 10 ^ t) @ [digit_unit 0]"
    by (simp only: decimal_def map_append list.map)
  with Suc show ?case by (simp add: replicate_append_same)
qed

lemma length_digits_of_le: "m < 10 ^ k \<Longrightarrow> 0 < k \<Longrightarrow> length (digits_of m) \<le> k"
proof (induction m arbitrary: k rule: digits_of.induct)
  case (1 n)
  show ?case
  proof (cases "n < 10")
    case True
    with "1.prems" show ?thesis by (simp add: digits_of_small)
  next
    case False
    with "1.prems" obtain j where k: "k = Suc j" by (cases k) auto
    from False "1.prems" k have j: "0 < j" by (cases j) auto
    from "1.prems" k have "n div 10 < 10 ^ j" by (simp add: less_mult_imp_div_less)
    with "1.IH" False j have "length (digits_of (n div 10)) \<le> j" by simp
    with False k show ?thesis by (simp add: digits_of_large)
  qed
qed

text \<open>
  \<open>Number::toString\<close> of a positive integer below \<open>10 ^ 21\<close> is its decimal numeral.
\<close>

lemma toString_integer:
  assumes "0 < i" and "i < 10 ^ 21"
  shows "Number_toString (num_of_int i) = decimal (nat i)"
proof -
  let ?m = "nat i"
  let ?s = "strip10 ?m"
  from assms(1) have pos: "0 < ?m" by simp
  from strip10_decompose [OF pos] obtain t where t: "?m = ?s * 10 ^ t" by blast
  have spos: "0 < ?s" using pos t by (cases "?s = 0") auto
  have len: "length (digits_of ?m) = length (digits_of ?s) + t"
    using length_digits_of_shift [OF spos, of t] t by simp
  from assms have "?m < 10 ^ 21"
    by (simp add: nat_less_iff)
  then have "length (digits_of ?m) \<le> 21"
    by (rule length_digits_of_le) simp
  with len have small: "int (length (digits_of ?s)) + int t \<le> 21" by simp
  have n: "num_of_int i = Num False ?s (int (length (digits_of ?s)) + int t)"
    using assms(1) len by (simp add: num_of_int_def)
  have "Number_toString (num_of_int i) = decimal ?s @ replicate t (digit_unit 0)"
    using spos small by (simp add: n Number_toString_def Let_def length_decimal)
  also have "\<dots> = decimal (?s * 10 ^ t)"
    using decimal_shift [OF spos, of t] by simp
  also have "\<dots> = decimal ?m" using t by simp
  finally show ?thesis .
qed

subsection \<open>Numbers are read back\<close>

lemma delimited_not_digit: "delimited r \<Longrightarrow> takeWhile is_digit r = []"
  by (cases r) (auto simp: delimited_def is_digit_def)

lemma delimited_fraction: "delimited r \<Longrightarrow> scan_fraction r = Some ([], r)"
  by (cases r) (auto simp: delimited_def scan_fraction_def)

lemma delimited_exponent: "delimited r \<Longrightarrow> scan_exponent r = Some (0, r)"
  by (cases r) (auto simp: delimited_def scan_exponent_def)

lemma takeWhile_digits:
  "\<forall>c \<in> set ds. is_digit c \<Longrightarrow> takeWhile is_digit r = [] \<Longrightarrow>
   takeWhile is_digit (ds @ r) = ds \<and> dropWhile is_digit (ds @ r) = r"
  by (cases r) (auto simp: takeWhile_append2 dropWhile_append2 split: if_splits)

lemma digits_then_delimiter:
  "delimited r \<Longrightarrow>
   takeWhile is_digit (decimal n @ r) = decimal n \<and> dropWhile is_digit (decimal n @ r) = r"
  using takeWhile_digits [of "decimal n" r]
  by (auto simp: is_digit_decimal delimited_not_digit)

lemma scan_exponent_plus:
  "delimited r \<Longrightarrow> scan_exponent (0x65 # 0x2B # decimal n @ r) = Some (int n, r)"
  by (simp add: scan_exponent_def digits_then_delimiter decimal_nonempty nat_of_digits_decimal)

lemma scan_exponent_minus:
  "delimited r \<Longrightarrow> scan_exponent (0x65 # 0x2D # decimal n @ r) = Some (- int n, r)"
  by (simp add: scan_exponent_def digits_then_delimiter decimal_nonempty nat_of_digits_decimal)

text \<open>The exponent part written by \<open>Number::toString\<close>, and what the scanner reads in it.\<close>

lemma scan_exponent_written:
  assumes "delimited r" and "ex \<noteq> 0"
  shows "scan_exponent (str ''e'' @ (if 0 < ex then str ''+'' else str ''-'') @ decimal (nat \<bar>ex\<bar>) @ r)
         = Some (ex, r)"
proof (cases "0 < ex")
  case True
  then show ?thesis
    using scan_exponent_plus [OF assms(1), of "nat \<bar>ex\<bar>"] by (simp add: str_def)
next
  case False
  with assms(2) show ?thesis
    using scan_exponent_minus [OF assms(1), of "nat \<bar>ex\<bar>"] by (simp add: str_def)
qed

lemma scan_fraction_written:
  assumes "\<forall>c \<in> set fp. is_digit c" and "fp \<noteq> []" and "takeWhile is_digit t = []"
  shows "scan_fraction (str ''.'' @ fp @ t) = Some (fp, t)"
  using takeWhile_digits [OF assms(1,3)] assms(2)
  by (simp add: scan_fraction_def str_def)

lemma scan_fraction_none:
  assumes "t = [] \<or> hd t \<noteq> 0x2E"
  shows "scan_fraction t = Some ([], t)"
  using assms by (cases t) (auto simp: scan_fraction_def)

lemma e_not_digit: "takeWhile is_digit (str ''e'' @ t) = []"
  by (simp add: str_def is_digit_def)

lemma dot_not_digit: "takeWhile is_digit (str ''.'' @ t) = []"
  by (simp add: str_def is_digit_def)

lemma scan_unsigned_parts:
  assumes "\<forall>c \<in> set ip. is_digit c" and "ip \<noteq> []" and "length ip = 1 \<or> hd ip \<noteq> 0x30"
    and "takeWhile is_digit t = []"
    and "scan_fraction t = Some (fp, t')"
    and "scan_exponent t' = Some (ex, r)"
  shows "scan_unsigned neg (ip @ t) = Some (make_number neg ip fp ex, r)"
  using takeWhile_digits [OF assms(1,4)] assms(2,3,5,6)
  by (auto simp: scan_unsigned_def Let_def)


lemma make_number_plain:
  assumes "s mod 10 \<noteq> 0"
  shows "make_number neg (decimal s @ replicate m (digit_unit 0)) [] 0
         = Num neg s (int (length (decimal s)) + int m)"
proof -
  from assms have pos: "0 < s" by (cases s) auto
  have v: "nat_of_digits (decimal s @ replicate m (digit_unit 0)) = s * 10 ^ m"
    by (simp add: nat_of_digits_append nat_of_digits_decimal nat_of_digits_zeros)
  show ?thesis
    using pos assms
    by (simp add: make_number_def v strip10_shift length_digits_of_shift length_decimal)
qed

lemma make_number_split:
  assumes "s mod 10 \<noteq> 0" and "n \<le> length (decimal s)"
  shows "make_number neg (take n (decimal s)) (drop n (decimal s)) ex = Num neg s (int n + ex)"
proof -
  from assms have pos: "0 < s" by (cases s) auto
  have v: "nat_of_digits (take n (decimal s) @ drop n (decimal s)) = s"
    by (simp add: nat_of_digits_decimal)
  show ?thesis
    using pos assms
    by (simp add: make_number_def v strip10_fixed length_decimal del: append_take_drop_id)
qed

lemma make_number_small:
  assumes "s mod 10 \<noteq> 0"
  shows "make_number neg [digit_unit 0] (replicate m (digit_unit 0) @ decimal s) 0
         = Num neg s (- int m)"
proof -
  from assms have pos: "0 < s" by (cases s) auto
  have "nat_of_digits ([digit_unit 0] @ replicate m (digit_unit 0) @ decimal s)
        = nat_of_digits (replicate (Suc m) (digit_unit 0) @ decimal s)"
    by simp
  also have "\<dots> = s"
    by (simp only: nat_of_digits_append [of "replicate (Suc m) (digit_unit 0)"]
        nat_of_digits_zeros nat_of_digits_decimal mult_zero_left add_0)
  finally have v: "nat_of_digits ([digit_unit 0] @ replicate m (digit_unit 0) @ decimal s) = s" .
  show ?thesis
    using pos assms v
    by (simp add: make_number_def strip10_fixed length_decimal)
qed

lemma digits_zeros: "\<forall>c \<in> set (decimal s @ replicate m (digit_unit 0)). is_digit c"
  by (auto simp: is_digit_decimal is_digit_digit_unit)

lemma scan_unsigned_plain:
  assumes "s mod 10 \<noteq> 0" and "delimited r"
  shows "scan_unsigned neg ((decimal s @ replicate m (digit_unit 0)) @ r)
         = Some (Num neg s (int (length (decimal s)) + int m), r)"
proof -
  from assms have pos: "0 < s" by (cases s) auto
  have ne: "decimal s @ replicate m (digit_unit 0) \<noteq> []"
    by (simp add: decimal_nonempty)
  have hd: "length (decimal s @ replicate m (digit_unit 0)) = 1
      \<or> hd (decimal s @ replicate m (digit_unit 0)) \<noteq> 0x30"
    using hd_decimal [OF pos] by (simp add: decimal_nonempty)
  have "scan_unsigned neg ((decimal s @ replicate m (digit_unit 0)) @ r)
        = Some (make_number neg (decimal s @ replicate m (digit_unit 0)) [] 0, r)"
    by (rule scan_unsigned_parts [OF digits_zeros ne hd delimited_not_digit [OF assms(2)]
          delimited_fraction [OF assms(2)] delimited_exponent [OF assms(2)]])
  then show ?thesis by (simp only: make_number_plain [OF assms(1)])
qed

lemma scan_unsigned_point:
  assumes "s mod 10 \<noteq> 0" and "delimited r" and "0 < n" and "n < length (decimal s)"
  shows "scan_unsigned neg (take n (decimal s) @ str ''.'' @ drop n (decimal s) @ r)
         = Some (Num neg s (int n), r)"
proof -
  from assms have pos: "0 < s" by (cases s) auto
  have dig: "\<forall>c \<in> set (take n (decimal s)). is_digit c"
    by (auto dest!: in_set_takeD is_digit_decimal)
  have dig': "\<forall>c \<in> set (drop n (decimal s)). is_digit c"
    by (auto dest!: in_set_dropD is_digit_decimal)
  have hd: "hd (take n (decimal s)) \<noteq> 0x30"
    using hd_decimal [OF pos] assms(3) by simp
  have ne: "take n (decimal s) \<noteq> []" "drop n (decimal s) \<noteq> []"
    using assms(3,4) by auto
  have fr: "scan_fraction (str ''.'' @ drop n (decimal s) @ r) = Some (drop n (decimal s), r)"
    by (rule scan_fraction_written [OF dig' ne(2) delimited_not_digit [OF assms(2)]])
  have "scan_unsigned neg (take n (decimal s) @ str ''.'' @ drop n (decimal s) @ r)
        = Some (make_number neg (take n (decimal s)) (drop n (decimal s)) 0, r)"
    by (rule scan_unsigned_parts [OF dig ne(1) _ dot_not_digit fr delimited_exponent [OF assms(2)]])
       (simp add: hd)
  then show ?thesis using make_number_split [OF assms(1), of n neg 0] assms(4) by simp
qed

lemma scan_unsigned_small:
  assumes "s mod 10 \<noteq> 0" and "delimited r"
  shows "scan_unsigned neg (str ''0.'' @ replicate m (digit_unit 0) @ decimal s @ r)
         = Some (Num neg s (- int m), r)"
proof -
  have dig: "\<forall>c \<in> set [digit_unit 0]. is_digit c"
    by (simp add: is_digit_digit_unit)
  have dig': "\<forall>c \<in> set (replicate m (digit_unit 0) @ decimal s). is_digit c"
    by (auto simp: is_digit_decimal is_digit_digit_unit)
  have fr: "scan_fraction (str ''.'' @ (replicate m (digit_unit 0) @ decimal s) @ r)
            = Some (replicate m (digit_unit 0) @ decimal s, r)"
    by (rule scan_fraction_written [OF dig' _ delimited_not_digit [OF assms(2)]])
       (simp add: decimal_nonempty)
  have "scan_unsigned neg ([digit_unit 0] @ str ''.'' @ (replicate m (digit_unit 0) @ decimal s) @ r)
        = Some (make_number neg [digit_unit 0] (replicate m (digit_unit 0) @ decimal s) 0, r)"
    by (rule scan_unsigned_parts [OF dig _ _ dot_not_digit fr delimited_exponent [OF assms(2)]])
       simp_all
  then show ?thesis
    using make_number_small [OF assms(1), of neg m] by (simp add: str_def digit_unit_def)
qed

lemma scan_unsigned_exp1:
  assumes "s mod 10 \<noteq> 0" and "delimited r" and "length (decimal s) = 1" and "ex \<noteq> 0"
  shows "scan_unsigned neg
           (decimal s @ (str ''e'' @ (if 0 < ex then str ''+'' else str ''-'')
              @ decimal (nat \<bar>ex\<bar>) @ r))
         = Some (Num neg s (1 + ex), r)"
proof -
  let ?t = "str ''e'' @ (if 0 < ex then str ''+'' else str ''-'') @ decimal (nat \<bar>ex\<bar>) @ r"
  have dig: "\<forall>c \<in> set (decimal s). is_digit c"
    by (simp add: is_digit_decimal)
  have fr: "scan_fraction ?t = Some ([], ?t)"
    by (rule scan_fraction_none) (simp add: str_def)
  have "scan_unsigned neg (decimal s @ ?t) = Some (make_number neg (decimal s) [] ex, r)"
    by (rule scan_unsigned_parts [OF dig decimal_nonempty _ e_not_digit fr
          scan_exponent_written [OF assms(2,4)]])
       (simp add: assms(3))
  moreover have "make_number neg (decimal s) [] ex = Num neg s (1 + ex)"
    using make_number_split [OF assms(1), of 1 neg ex] assms(3) by simp
  ultimately show ?thesis by simp
qed

lemma scan_unsigned_exp:
  assumes "s mod 10 \<noteq> 0" and "delimited r" and "1 < length (decimal s)" and "ex \<noteq> 0"
  shows "scan_unsigned neg
           (take 1 (decimal s) @ str ''.'' @ drop 1 (decimal s)
              @ (str ''e'' @ (if 0 < ex then str ''+'' else str ''-'')
              @ decimal (nat \<bar>ex\<bar>) @ r))
         = Some (Num neg s (1 + ex), r)"
proof -
  let ?t = "str ''e'' @ (if 0 < ex then str ''+'' else str ''-'') @ decimal (nat \<bar>ex\<bar>) @ r"
  from assms have pos: "0 < s" by (cases s) auto
  have dig: "\<forall>c \<in> set (take 1 (decimal s)). is_digit c"
    by (auto dest!: in_set_takeD is_digit_decimal)
  have dig': "\<forall>c \<in> set (drop 1 (decimal s)). is_digit c"
    by (auto dest!: in_set_dropD is_digit_decimal)
  have ne: "take 1 (decimal s) \<noteq> []" "drop 1 (decimal s) \<noteq> []"
    using assms(3) by auto
  have fr: "scan_fraction (str ''.'' @ drop 1 (decimal s) @ ?t) = Some (drop 1 (decimal s), ?t)"
    by (rule scan_fraction_written [OF dig' ne(2) e_not_digit])
  have l: "length (take 1 (decimal s)) = 1 \<or> hd (take 1 (decimal s)) \<noteq> 0x30"
    using assms(3) by simp
  have "scan_unsigned neg (take 1 (decimal s) @ str ''.'' @ drop 1 (decimal s) @ ?t)
        = Some (make_number neg (take 1 (decimal s)) (drop 1 (decimal s)) ex, r)"
    by (rule scan_unsigned_parts [OF dig ne(1) l dot_not_digit fr
          scan_exponent_written [OF assms(2,4)]])
  moreover have "make_number neg (take 1 (decimal s)) (drop 1 (decimal s)) ex = Num neg s (1 + ex)"
    using make_number_split [OF assms(1), of 1 neg ex] assms(3) by simp
  ultimately show ?thesis by simp
qed

lemma scan_unsigned_starts:
  "scan_unsigned neg t = Some y \<Longrightarrow> t \<noteq> [] \<and> is_digit (hd t)"
  by (cases t) (auto simp: scan_unsigned_def Let_def split: if_splits)

lemma scan_number_unsigned:
  "scan_unsigned False t = Some y \<Longrightarrow> scan_number t = Some y"
  using scan_unsigned_starts [of False t y]
  by (cases t) (auto simp: scan_number_def is_digit_def)

lemma scan_number_minus: "scan_number (str ''-'' @ t) = scan_unsigned True t"
  by (simp add: scan_number_def str_def)

lemma toString_negative:
  "s \<noteq> 0 \<Longrightarrow> Number_toString (Num True s n) = str ''-'' @ Number_toString (Num False s n)"
  by (simp add: Number_toString_def Let_def)

lemma scan_unsigned_toString:
  assumes s: "s mod 10 \<noteq> 0" and r: "delimited r"
  shows "scan_unsigned neg (Number_toString (Num False s n) @ r) = Some (Num neg s n, r)"
proof -
  from s have nz: "s \<noteq> 0" by auto
  let ?k = "int (length (decimal s))"
  have kpos: "0 < ?k" using decimal_nonempty [of s] by simp
  consider (plain) "?k \<le> n" "n \<le> 21"
    | (point) "n < ?k" "0 < n" "n \<le> 21"
    | (small) "- 6 < n" "n \<le> 0"
    | (exp1) "21 < n \<or> n \<le> - 6" "?k = 1"
    | (exp) "21 < n \<or> n \<le> - 6" "?k \<noteq> 1"
    by linarith
  then show ?thesis
  proof cases
    case plain
    then have "Number_toString (Num False s n)
        = decimal s @ replicate (nat (n - ?k)) (digit_unit 0)"
      using nz by (simp add: Number_toString_def Let_def)
    moreover have "?k + int (nat (n - ?k)) = n" using plain by simp
    ultimately show ?thesis
      using scan_unsigned_plain [OF s r, of neg "nat (n - ?k)"] by simp
  next
    case point
    then have "Number_toString (Num False s n)
        = take (nat n) (decimal s) @ str ''.'' @ drop (nat n) (decimal s)"
      using nz by (simp add: Number_toString_def Let_def)
    moreover have "0 < nat n" "nat n < length (decimal s)" "int (nat n) = n"
      using point by simp_all
    ultimately show ?thesis
      using scan_unsigned_point [OF s r, of "nat n" neg] by simp
  next
    case small
    with kpos have "\<not> ?k \<le> n" by linarith
    with small have "Number_toString (Num False s n)
        = str ''0.'' @ replicate (nat (- n)) (digit_unit 0) @ decimal s"
      using nz by (simp add: Number_toString_def Let_def)
    moreover have "- int (nat (- n)) = n" using small by simp
    ultimately show ?thesis
      using scan_unsigned_small [OF s r, of neg "nat (- n)"] by simp
  next
    case exp1
    then have "Number_toString (Num False s n)
        = decimal s @ str ''e'' @ (if 0 < n - 1 then str ''+'' else str ''-'')
            @ decimal (nat \<bar>n - 1\<bar>)"
      using nz by (auto simp: Number_toString_def Let_def)
    moreover have "length (decimal s) = 1" "n - 1 \<noteq> 0" using exp1 by auto
    ultimately show ?thesis
      using scan_unsigned_exp1 [OF s r, of "n - 1" neg] by simp
  next
    case exp
    then have "Number_toString (Num False s n)
        = take 1 (decimal s) @ str ''.'' @ drop 1 (decimal s)
            @ str ''e'' @ (if 0 < n - 1 then str ''+'' else str ''-'')
            @ decimal (nat \<bar>n - 1\<bar>)"
      using nz by (auto simp: Number_toString_def Let_def)
    moreover have "1 < length (decimal s)" "n - 1 \<noteq> 0" using exp kpos by linarith+
    ultimately show ?thesis
      using scan_unsigned_exp [OF s r, of "n - 1" neg] by simp
  qed
qed

lemma scan_unsigned_zero:
  assumes "delimited r"
  shows "scan_unsigned False (str ''0'' @ r) = Some (Num False 0 0, r)"
proof -
  have "scan_unsigned False ([0x30] @ r) = Some (make_number False [0x30] [] 0, r)"
    by (rule scan_unsigned_parts [OF _ _ _ delimited_not_digit [OF assms]
          delimited_fraction [OF assms] delimited_exponent [OF assms]])
       (simp_all add: is_digit_def)
  moreover have "make_number False [0x30] [] 0 = Num False 0 0"
    by (simp add: make_number_def nat_of_digits_def)
  ultimately show ?thesis by (simp add: str_def)
qed

lemma scan_number_toString:
  assumes "canonical x" and "delimited r"
  shows "scan_number (Number_toString x @ r) = Some (x, r)"
proof (cases x)
  case (Num neg s n)
  show ?thesis
  proof (cases "s = 0")
    case True
    with assms(1) Num have x: "x = Num False 0 0" by (simp add: canonical_def)
    show ?thesis
      using scan_number_unsigned [OF scan_unsigned_zero [OF assms(2)]]
      by (simp add: x Number_toString_def)
  next
    case False
    with assms(1) Num have s: "s mod 10 \<noteq> 0" by (simp add: canonical_def)
    show ?thesis
    proof (cases neg)
      case True
      then show ?thesis
        using scan_unsigned_toString [OF s assms(2), of True n] False
        by (simp add: Num toString_negative scan_number_minus)
    next
      case False
      then show ?thesis
        using scan_number_unsigned [OF scan_unsigned_toString [OF s assms(2), of False n]]
        by (simp add: Num)
    qed
  qed
qed


subsection \<open>Strings are read back\<close>

lemma unat_of_nat_small: "n < 65536 \<Longrightarrow> unat (of_nat n :: code_unit) = n"
  by (subst unat_of_nat) simp

lemma unat_hex_unit:
  "d < 16 \<Longrightarrow> unat (hex_unit d) = (if d < 10 then 48 + d else 87 + d)"
proof -
  assume "d < 16"
  then have "48 + d < 65536" "87 + d < 65536" by simp_all
  then have "unat (of_nat (48 + d) :: code_unit) = 48 + d"
    and "unat (of_nat (87 + d) :: code_unit) = 87 + d"
    by (simp_all only: unat_of_nat_small)
  then show ?thesis
    unfolding hex_unit_def by (simp only: if_distrib [of unat] if_cancel)
qed

lemma hex_val_hex_unit: "d < 16 \<Longrightarrow> hex_val (hex_unit d) = Some d"
  by (simp add: hex_val_def word_le_nat_alt unat_hex_unit)

lemma hex_digits_value:
  "((n div 4096 * 16 + n div 256 mod 16) * 16 + n div 16 mod 16) * 16 + n mod 16 = (n::nat)"
proof -
  define n1 where "n1 = n div 16"
  define n2 where "n2 = n1 div 16"
  have a: "n div 4096 = n2 div 16" and b: "n div 256 = n2"
    by (simp_all add: n1_def n2_def div_mult2_eq)
  have "n2 div 16 * 16 + n2 mod 16 = n2" by simp
  moreover have "n2 * 16 + n1 mod 16 = n1" by (simp add: n2_def)
  moreover have "n1 * 16 + n mod 16 = n" by (simp add: n1_def)
  ultimately show ?thesis
    by (simp only: a b n1_def [symmetric])
qed

lemma of_nat_unat_unit: "of_nat (unat c) = (c :: code_unit)"
  by simp

lemma hex4_UnicodeEscape:
  "UnicodeEscape c = [0x5C, 0x75, h3, h2, h1, h0] \<Longrightarrow> hex4 h3 h2 h1 h0 = Some c"
proof -
  assume a: "UnicodeEscape c = [0x5C, 0x75, h3, h2, h1, h0]"
  have "unat c < 2 ^ 16" using unsigned_less [of c] by simp
  then have b: "unat c div 4096 < 16" "unat c div 256 mod 16 < 16"
    "unat c div 16 mod 16 < 16" "unat c mod 16 < 16"
    by simp_all
  from a have h: "h3 = hex_unit (unat c div 4096)" "h2 = hex_unit (unat c div 256 mod 16)"
    "h1 = hex_unit (unat c div 16 mod 16)" "h0 = hex_unit (unat c mod 16)"
    by (simp_all add: UnicodeEscape_def Let_def)
  show ?thesis
    unfolding hex4_def h
    by (simp only: hex_val_hex_unit [OF b(1)] hex_val_hex_unit [OF b(2)]
        hex_val_hex_unit [OF b(3)] hex_val_hex_unit [OF b(4)] hex_digits_value
        prod.case option.case of_nat_unat_unit)
qed

lemma scan_string_escape:
  "e \<noteq> 0x75 \<Longrightarrow> unescape e = Some u \<Longrightarrow>
   scan_string (0x5C # e # t) = cons_unit u (scan_string t)"
  by (simp add: scan_string.simps)

lemma scan_string_unicode:
  "hex4 h3 h2 h1 h0 = Some u \<Longrightarrow>
   scan_string (0x5C # 0x75 # h3 # h2 # h1 # h0 # t) = cons_unit u (scan_string t)"
  by (simp add: scan_string.simps)

lemma scan_string_raw:
  "c \<noteq> 0x22 \<Longrightarrow> c \<noteq> 0x5C \<Longrightarrow> \<not> c < 0x20 \<Longrightarrow>
   scan_string (c # t) = cons_unit c (scan_string t)"
  by (simp add: scan_string.simps)

lemma scan_string_quote_special:
  "c \<in> {0x08, 0x09, 0x0A, 0x0C, 0x0D, 0x22, 0x5C} \<Longrightarrow>
   scan_string (quote_unit c @ t) = cons_unit c (scan_string t)"
  by (elim insertE emptyE) (simp_all add: quote_unit_def unescape_def scan_string.simps)

lemma quote_unit_other:
  "c \<notin> {0x08, 0x09, 0x0A, 0x0C, 0x0D, 0x22, 0x5C} \<Longrightarrow>
   quote_unit c = (if c < 0x20 \<or> is_lead c \<or> is_trail c then UnicodeEscape c else [c])"
  by (simp add: quote_unit_def)

lemma scan_string_quote_unit:
  "scan_string (quote_unit c @ t) = cons_unit c (scan_string t)"
proof (cases "c \<in> {0x08, 0x09, 0x0A, 0x0C, 0x0D, 0x22, 0x5C}")
  case True
  then show ?thesis by (rule scan_string_quote_special)
next
  case False
  note q = quote_unit_other [OF False]
  show ?thesis
  proof (cases "c < 0x20 \<or> is_lead c \<or> is_trail c")
    case True
    obtain h3 h2 h1 h0 where u: "UnicodeEscape c = [0x5C, 0x75, h3, h2, h1, h0]"
      by (simp add: UnicodeEscape_def Let_def)
    from hex4_UnicodeEscape [OF u] have "hex4 h3 h2 h1 h0 = Some c" .
    then have "scan_string (0x5C # 0x75 # h3 # h2 # h1 # h0 # t) = cons_unit c (scan_string t)"
      by (rule scan_string_unicode)
    with True show ?thesis by (simp only: q u if_True append_Cons append_Nil)
  next
    case raw: False
    with False have "c \<noteq> 0x22" "c \<noteq> 0x5C" "\<not> c < 0x20" by auto
    then have "scan_string (c # t) = cons_unit c (scan_string t)"
      by (rule scan_string_raw)
    with raw show ?thesis by (simp only: q if_False append_Cons append_Nil)
  qed
qed

lemma surrogate_raw:
  "is_lead c \<or> is_trail c \<Longrightarrow> c \<noteq> 0x22 \<and> c \<noteq> 0x5C \<and> \<not> c < 0x20"
  by (auto simp: is_lead_def is_trail_def word_le_nat_alt word_less_nat_alt)

lemma scan_string_quote_units:
  "scan_string (quote_units s @ 0x22 # r) = Some (s, r)"
proof (induction s rule: quote_units.induct)
  case 1
  show ?case by (simp add: scan_string.simps)
next
  case (2 c)
  have "scan_string (0x22 # r) = Some ([], r)" by (simp add: scan_string.simps)
  then show ?case
    using scan_string_quote_unit [of c "0x22 # r"] by (simp add: cons_unit_def)
next
  case (3 c d cs)
  show ?case
  proof (cases "is_lead c \<and> is_trail d")
    case True
    then have "c \<noteq> 0x22 \<and> c \<noteq> 0x5C \<and> \<not> c < 0x20" and "d \<noteq> 0x22 \<and> d \<noteq> 0x5C \<and> \<not> d < 0x20"
      using surrogate_raw [of c] surrogate_raw [of d] by blast+
    then have "scan_string (c # d # quote_units cs @ 0x22 # r)
        = cons_unit c (cons_unit d (scan_string (quote_units cs @ 0x22 # r)))"
      by (simp add: scan_string_raw)
    with True 3 show ?thesis by (simp add: cons_unit_def)
  next
    case False
    then have step: "quote_units (c # d # cs) = quote_unit c @ quote_units (d # cs)"
      by (simp only: quote_units.simps if_False)
    have "scan_string (quote_units (c # d # cs) @ 0x22 # r)
        = cons_unit c (scan_string (quote_units (d # cs) @ 0x22 # r))"
      unfolding step using scan_string_quote_unit [of c "quote_units (d # cs) @ 0x22 # r"]
      by (simp only: append_assoc)
    also have "\<dots> = cons_unit c (Some (d # cs, r))"
      using 3(2) [OF False] by (simp only:)
    finally show ?thesis by (simp add: cons_unit_def)
  qed
qed

lemma scan_string_QuoteJSONString:
  "QuoteJSONString s @ r = 0x22 # t \<Longrightarrow> scan_string t = Some (s, r)"
  using scan_string_quote_units [of s r] by (simp add: QuoteJSONString_def)

subsection \<open>Values are read back\<close>

lemma skip_ws_keep: "\<not> is_ws c \<Longrightarrow> skip_ws (c # t) = c # t"
  by (simp add: skip_ws_def)

lemma delimited_skip_ws: "delimited r \<Longrightarrow> skip_ws r = r"
  by (cases r) (auto simp: delimited_def skip_ws_def is_ws_def)

lemma scan_number_starts:
  "scan_number t = Some y \<Longrightarrow> \<exists>c cs. t = c # cs \<and> (c = 0x2D \<or> is_digit c)"
  by (cases t) (auto simp: scan_number_def split: if_splits dest: scan_unsigned_starts)

lemma number_start_tests:
  assumes "c = 0x2D \<or> is_digit c"
  shows "\<not> is_ws c" "c \<noteq> 0x5B" "c \<noteq> 0x7B" "c \<noteq> 0x22" "c \<noteq> 0x5D" "c \<noteq> 0x7D"
    "c \<noteq> 0x74" "c \<noteq> 0x66" "c \<noteq> 0x6E"
  using assms by (auto simp: is_digit_def is_ws_def)

lemma parse_value_number:
  assumes "scan_number t = Some (x, r)"
  shows "parse_value (Suc f) t = Parsed (JNum x) r"
proof -
  from scan_number_starts [OF assms] obtain c cs where
    t: "t = c # cs" and c: "c = 0x2D \<or> is_digit c"
    by blast
  note n = number_start_tests [OF c]
  have "skip_ws t = c # cs" using n(1) by (simp add: t skip_ws_keep)
  then show ?thesis
    using n assms by (simp add: parse_value.simps str_def t)
qed

lemma parse_value_null: "parse_value (Suc f) (str ''null'' @ r) = Parsed JNull r"
  by (simp add: parse_value.simps str_def skip_ws_def is_ws_def)

lemma parse_value_true: "parse_value (Suc f) (str ''true'' @ r) = Parsed (JBool True) r"
  by (simp add: parse_value.simps str_def skip_ws_def is_ws_def)

lemma parse_value_false: "parse_value (Suc f) (str ''false'' @ r) = Parsed (JBool False) r"
  by (simp add: parse_value.simps str_def skip_ws_def is_ws_def)

lemma parse_value_string:
  "scan_string t = Some (s, r) \<Longrightarrow> parse_value (Suc f) (0x22 # t) = Parsed (JStr s) r"
  by (simp add: parse_value.simps skip_ws_def is_ws_def)

lemma parse_value_empty_array:
  "parse_value (Suc f) (str ''['' @ str '']'' @ r) = Parsed (JArr []) r"
  by (simp add: parse_value.simps str_def skip_ws_def is_ws_def)

lemma parse_value_empty_object:
  "parse_value (Suc f) (str ''{'' @ str ''}'' @ r) = Parsed (JObj []) r"
  by (simp add: parse_value.simps str_def skip_ws_def is_ws_def)

lemma parse_value_array:
  assumes "\<not> is_ws d" and "d \<noteq> 0x5D" and "parse_elements f (d # t) = Parsed vs r"
  shows "parse_value (Suc f) (str ''['' @ d # t) = Parsed (JArr vs) r"
  using assms by (simp add: parse_value.simps str_def skip_ws_def is_ws_def)

lemma parse_value_object:
  assumes "\<not> is_ws d" and "d \<noteq> 0x7D" and "parse_members f (d # t) = Parsed ps r"
  shows "parse_value (Suc f) (str ''{'' @ d # t) = Parsed (JObj (foldl CreateDataProperty [] ps)) r"
  using assms by (simp add: parse_value.simps str_def skip_ws_def is_ws_def)

lemma parse_elements_last:
  assumes "parse_value f t = Parsed v (0x5D # r)"
  shows "parse_elements (Suc f) t = Parsed [v] r"
  using assms by (simp add: parse_elements.simps skip_ws_def is_ws_def)

lemma parse_elements_more:
  assumes "parse_value f t = Parsed v (0x2C # t')" and "parse_elements f t' = Parsed vs r"
  shows "parse_elements (Suc f) t = Parsed (v # vs) r"
  using assms by (simp add: parse_elements.simps skip_ws_def is_ws_def)

lemma parse_members_last:
  assumes "scan_string t = Some (k, 0x3A # t')" and "parse_value f t' = Parsed v (0x7D # r)"
  shows "parse_members (Suc f) (0x22 # t) = Parsed [(k, v)] r"
  using assms by (simp add: parse_members.simps skip_ws_def is_ws_def)

lemma parse_members_more:
  assumes "scan_string t = Some (k, 0x3A # t')" and "parse_value f t' = Parsed v (0x2C # t'')"
    and "parse_members f t'' = Parsed ps r"
  shows "parse_members (Suc f) (0x22 # t) = Parsed ((k, v) # ps) r"
  using assms by (simp add: parse_members.simps skip_ws_def is_ws_def)


lemma stringify_head:
  assumes "well_formed v"
  shows "\<exists>c t. stringify v = c # t \<and> \<not> is_ws c \<and> c \<noteq> 0x5D \<and> c \<noteq> 0x7D"
proof (cases v)
  case (JNum x)
  with assms have "canonical x" by simp
  then have "scan_number (Number_toString x @ []) = Some (x, [])"
    by (rule scan_number_toString) (simp add: delimited_def)
  then obtain c cs where "Number_toString x = c # cs" and "c = 0x2D \<or> is_digit c"
    using scan_number_starts [of "Number_toString x" "(x, [])"] by auto
  then show ?thesis
    using number_start_tests [of c] by (simp add: JNum)
qed (simp_all add: str_def is_ws_def QuoteJSONString_def)

lemma stringify_elements_head:
  assumes "vs \<noteq> []" and "well_formed_elements vs"
  shows "\<exists>c t. stringify_elements vs = c # t \<and> \<not> is_ws c \<and> c \<noteq> 0x5D"
proof -
  from assms obtain v ws where vs: "vs = v # ws" and v: "well_formed v"
    by (cases vs) auto
  from stringify_head [OF v] obtain c t where "stringify v = c # t" "\<not> is_ws c" "c \<noteq> 0x5D"
    by blast
  then show ?thesis by (cases ws) (simp_all add: vs)
qed

lemma stringify_members_head:
  assumes "ps \<noteq> []"
  shows "\<exists>t. stringify_members ps = 0x22 # t"
proof -
  from assms obtain k v qs where "ps = (k, v) # qs" by (cases ps) auto
  then show ?thesis by (cases qs) (simp_all add: QuoteJSONString_def)
qed

lemma CreateDataProperty_fresh:
  "fst p \<notin> fst ` set acc \<Longrightarrow> array_index (fst p) = None \<Longrightarrow> CreateDataProperty acc p = acc @ [p]"
  by (simp add: CreateDataProperty_def)

lemma members_no_index:
  "well_formed_members ps \<Longrightarrow> p \<in> set ps \<Longrightarrow> array_index (fst p) = None"
  by (induction ps) auto

lemma foldl_CreateDataProperty:
  "distinct (map fst (acc @ ps)) \<Longrightarrow> well_formed_members ps \<Longrightarrow>
   foldl CreateDataProperty acc ps = acc @ ps"
proof (induction ps arbitrary: acc)
  case Nil
  show ?case by simp
next
  case (Cons p ps)
  from Cons.prems have "fst p \<notin> fst ` set acc" and "array_index (fst p) = None"
    and d: "distinct (map fst ((acc @ [p]) @ ps))" and w: "well_formed_members ps"
    by auto
  then have "CreateDataProperty acc p = acc @ [p]"
    by (simp add: CreateDataProperty_fresh)
  with Cons.IH [OF d w] show ?case by simp
qed

lemma quoted_key:
  "scan_string (quote_units k @ 0x22 # t) = Some (k, t)"
  by (rule scan_string_quote_units)

lemma parse_stringify:
  shows "well_formed v \<Longrightarrow> delimited r \<Longrightarrow> 2 * length (stringify v) < f \<Longrightarrow>
         parse_value f (stringify v @ r) = Parsed v r"
    and "vs \<noteq> [] \<Longrightarrow> well_formed_elements vs \<Longrightarrow> delimited r \<Longrightarrow>
         2 * length (stringify_elements vs) + 1 < f \<Longrightarrow>
         parse_elements f (stringify_elements vs @ 0x5D # r) = Parsed vs r"
    and "ps \<noteq> [] \<Longrightarrow> well_formed_members ps \<Longrightarrow> delimited r \<Longrightarrow>
         2 * length (stringify_members ps) + 1 < f \<Longrightarrow>
         parse_members f (stringify_members ps @ 0x7D # r) = Parsed ps r"
proof (induction v and vs and ps arbitrary: f r and f r and f r
    rule: stringify_stringify_elements_stringify_members.induct)
  case 1
  then obtain f' where "f = Suc f'" by (cases f) auto
  then show ?case by (simp add: parse_value_null)
next
  case (2 b)
  then obtain f' where "f = Suc f'" by (cases f) auto
  then show ?case by (simp add: parse_value_true parse_value_false)
next
  case (3 x)
  then obtain f' where f: "f = Suc f'" by (cases f) auto
  from 3 have "scan_number (Number_toString x @ r) = Some (x, r)"
    by (simp add: scan_number_toString)
  then show ?case by (simp add: f parse_value_number)
next
  case (4 s)
  then obtain f' where f: "f = Suc f'" by (cases f) auto
  have "scan_string (quote_units s @ 0x22 # r) = Some (s, r)"
    by (rule scan_string_quote_units)
  then show ?case by (simp add: f QuoteJSONString_def parse_value_string)
next
  case (5 vs)
  then obtain f' where f: "f = Suc f'" by (cases f) auto
  show ?case
  proof (cases "vs = []")
    case True
    then show ?thesis using parse_value_empty_array [of f' r] by (simp add: f)
  next
    case False
    from 5(2) have w: "well_formed_elements vs" by simp
    from 5(4) have fuel: "2 * length (stringify_elements vs) + 1 < f'"
      by (simp add: f str_def)
    from 5(1) [OF False w 5(3) fuel]
    have e: "parse_elements f' (stringify_elements vs @ 0x5D # r) = Parsed vs r" .
    from stringify_elements_head [OF False w] obtain d t where
      h: "stringify_elements vs = d # t" "\<not> is_ws d" "d \<noteq> 0x5D"
      by blast
    from e have "parse_elements f' (d # t @ 0x5D # r) = Parsed vs r"
      by (simp add: h(1))
    from parse_value_array [OF h(2,3) this] show ?thesis
      by (simp add: f h(1) str_def)
  qed
next
  case (6 ps)
  then obtain f' where f: "f = Suc f'" by (cases f) auto
  show ?case
  proof (cases "ps = []")
    case True
    then show ?thesis using parse_value_empty_object [of f' r] by (simp add: f)
  next
    case False
    from 6(2) have w: "well_formed_members ps" and d: "distinct (map fst ps)" by simp_all
    from 6(4) have fuel: "2 * length (stringify_members ps) + 1 < f'"
      by (simp add: f str_def)
    from 6(1) [OF False w 6(3) fuel]
    have e: "parse_members f' (stringify_members ps @ 0x7D # r) = Parsed ps r" .
    from stringify_members_head [OF False] obtain t where
      h: "stringify_members ps = 0x22 # t"
      by blast
    have q: "\<not> is_ws (0x22 :: code_unit)" "(0x22 :: code_unit) \<noteq> 0x7D"
      by (simp_all add: is_ws_def)
    from e have "parse_members f' (0x22 # t @ 0x7D # r) = Parsed ps r"
      by (simp add: h)
    from parse_value_object [OF q this]
    have "parse_value (Suc f') (str ''{'' @ 0x22 # t @ 0x7D # r)
          = Parsed (JObj (foldl CreateDataProperty [] ps)) r" .
    moreover have "foldl CreateDataProperty [] ps = ps"
      using foldl_CreateDataProperty [of "[]" ps] d w by simp
    ultimately show ?thesis
      by (simp add: f h str_def)
  qed
next
  case 7
  then show ?case by simp
next
  case (8 v)
  then obtain f' where f: "f = Suc f'" by (cases f) auto
  from 8(3) have w: "well_formed v" by simp
  have dl: "delimited (0x5D # r)" by (simp add: delimited_def)
  from 8(5) have fuel: "2 * length (stringify v) < f'" by (simp add: f)
  from 8(1) [OF w dl fuel] show ?case
    by (simp add: f parse_elements_last)
next
  case (9 v w vs)
  then obtain f' where f: "f = Suc f'" by (cases f) auto
  let ?t = "stringify_elements (w # vs) @ 0x5D # r"
  from 9(4) have wv: "well_formed v" and wr: "well_formed_elements (w # vs)" by simp_all
  have dl: "delimited (0x2C # ?t)" by (simp add: delimited_def)
  from 9(6) have fuel: "2 * length (stringify v) < f'"
    and fuel': "2 * length (stringify_elements (w # vs)) + 1 < f'"
    by (simp_all add: f str_def)
  from 9(1) [OF wv dl fuel]
  have a: "parse_value f' (stringify v @ 0x2C # ?t) = Parsed v (0x2C # ?t)" .
  from 9(2) [OF _ wr 9(5) fuel']
  have b: "parse_elements f' ?t = Parsed (w # vs) r" by simp
  from parse_elements_more [OF a b] show ?case
    by (simp add: f str_def)
next
  case 10
  then show ?case by simp
next
  case (11 k v)
  then obtain f' where f: "f = Suc f'" by (cases f) auto
  from 11(3) have w: "well_formed v" by simp
  have dl: "delimited (0x7D # r)" by (simp add: delimited_def)
  from 11(5) have fuel: "2 * length (stringify v) < f'" by (simp add: f)
  from 11(1) [OF w dl fuel]
  have a: "parse_value f' (stringify v @ 0x7D # r) = Parsed v (0x7D # r)" .
  from parse_members_last [OF quoted_key a] show ?case
    by (simp add: f str_def QuoteJSONString_def)
next
  case (12 k v p ps)
  then obtain f' where f: "f = Suc f'" by (cases f) auto
  let ?t = "stringify_members (p # ps) @ 0x7D # r"
  from 12(4) have wv: "well_formed v" and wr: "well_formed_members (p # ps)" by simp_all
  have dl: "delimited (0x2C # ?t)" by (simp add: delimited_def)
  from 12(6) have fuel: "2 * length (stringify v) < f'"
    and fuel': "2 * length (stringify_members (p # ps)) + 1 < f'"
    by (simp_all add: f str_def)
  from 12(1) [OF wv dl fuel]
  have a: "parse_value f' (stringify v @ 0x2C # ?t) = Parsed v (0x2C # ?t)" .
  from 12(2) [OF _ wr 12(5) fuel']
  have b: "parse_members f' ?t = Parsed (p # ps) r" by simp
  from parse_members_more [OF quoted_key a b] show ?case
    by (simp add: f str_def QuoteJSONString_def)
qed

lemma JSON_parse_stringify:
  assumes "well_formed v"
  shows "JSON_parse (stringify v) = Inr v"
proof -
  have "parse_value (2 * length (stringify v) + 1) (stringify v @ []) = Parsed v []"
    by (rule parse_stringify(1) [OF assms]) (simp_all add: delimited_def)
  then show ?thesis by (simp add: JSON_parse_def skip_ws_def)
qed

lemma well_formed_waypoints:
  "list_all canonical_waypoint ps \<Longrightarrow> well_formed_elements (map json_of_waypoint ps)"
  by (induction ps) (simp_all add: json_of_waypoint_def canonical_waypoint_def)

lemma route_keys_not_indices:
  "array_index (str ''id'') = None" "array_index (str ''name'') = None"
  "array_index (str ''color'') = None" "array_index (str ''description'') = None"
  "array_index (str ''waypoints'') = None"
  by (simp_all add: array_index_def str_def is_digit_def)

lemma route_keys_distinct:
  "distinct [str ''id'', str ''name'', str ''color'', str ''description'', str ''waypoints'']"
  by (simp add: str_def)

lemma well_formed_route: "canonical_route r \<Longrightarrow> well_formed (json_of_route r)"
  using route_keys_distinct
  by (simp add: json_of_route_def canonical_route_def route_keys_not_indices
      canonical_num_of_int well_formed_waypoints)

lemma well_formed_routes:
  "list_all canonical_route rs \<Longrightarrow> well_formed (json_of_routes rs)"
  by (induction rs) (simp_all add: json_of_routes_def well_formed_route)

lemma stringify_routes_nonempty: "stringify (json_of_routes rs) \<noteq> []"
  by (simp add: json_of_routes_def str_def)

subsection \<open>The JSON value of a collection determines the collection\<close>

lemma num_of_int_inject: "num_of_int i = num_of_int j \<Longrightarrow> i = j"
proof -
  assume e: "num_of_int i = num_of_int j"
  have nz: "strip10 (nat \<bar>k\<bar>) \<noteq> 0" if "k \<noteq> 0" for k :: int
    using strip10_canonical [of "nat \<bar>k\<bar>"] that by auto
  show ?thesis
  proof (cases "i = 0 \<or> j = 0")
    case True
    with e nz [of i] nz [of j] show ?thesis
      by (auto simp: num_of_int_def split: if_splits)
  next
    case False
    with e have s: "(i < 0) = (j < 0)"
      and st: "strip10 (nat \<bar>i\<bar>) = strip10 (nat \<bar>j\<bar>)"
      and ln: "length (digits_of (nat \<bar>i\<bar>)) = length (digits_of (nat \<bar>j\<bar>))"
      by (simp_all add: num_of_int_def)
    from False have pi: "0 < nat \<bar>i\<bar>" and pj: "0 < nat \<bar>j\<bar>" by simp_all
    have "nat \<bar>i\<bar> = nat \<bar>j\<bar>"
      by (rule strip10_length_inject [OF pi pj st ln])
    then have "\<bar>i\<bar> = \<bar>j\<bar>" by simp
    with s show ?thesis by (simp add: abs_if split: if_splits)
  qed
qed

lemma json_of_waypoint_inject: "json_of_waypoint p = json_of_waypoint q \<Longrightarrow> p = q"
  by (simp add: json_of_waypoint_def prod_eq_iff)

lemma json_of_route_inject: "json_of_route r = json_of_route r' \<Longrightarrow> r = r'"
proof -
  assume e: "json_of_route r = json_of_route r'"
  then have "map json_of_waypoint (waypoints r) = map json_of_waypoint (waypoints r')"
    by (simp add: json_of_route_def)
  moreover have "inj json_of_waypoint"
    by (rule injI) (rule json_of_waypoint_inject)
  ultimately have "waypoints r = waypoints r'"
    by (simp add: inj_map_eq_map)
  with e show ?thesis
    by (cases r, cases r') (auto simp: json_of_route_def dest: num_of_int_inject)
qed

lemma json_of_routes_inject: "json_of_routes rs = json_of_routes rs' \<Longrightarrow> rs = rs'"
proof -
  assume "json_of_routes rs = json_of_routes rs'"
  then have "map json_of_route rs = map json_of_route rs'"
    by (simp add: json_of_routes_def)
  moreover have "inj json_of_route"
    by (rule injI) (rule json_of_route_inject)
  ultimately show ?thesis
    by (simp add: inj_map_eq_map)
qed

subsection \<open>Reading a collection back from its JSON value\<close>

lemma int_of_num_num_of_int: "int_of_num (num_of_int i) = Some i"
proof (cases "i = 0")
  case True
  then show ?thesis by (simp add: int_of_num_def num_of_int_def)
next
  case False
  let ?m = "nat \<bar>i\<bar>"
  let ?s = "strip10 ?m"
  from False have pos: "0 < ?m" by simp
  from strip10_decompose [OF pos] obtain t where t: "?m = ?s * 10 ^ t" by blast
  have spos: "0 < ?s" using pos t by (cases "?s = 0") auto
  have len: "length (digits_of ?m) = length (digits_of ?s) + t"
    using length_digits_of_shift [OF spos, of t] t by simp
  have "int ?s * 10 ^ t = int ?m"
    using t by (metis of_nat_mult of_nat_numeral of_nat_power)
  then have v: "int ?s * 10 ^ t = \<bar>i\<bar>" by simp
  have "int_of_num (num_of_int i) = Some ((if i < 0 then - 1 else 1) * int ?s * 10 ^ t)"
    using False spos len by (simp add: int_of_num_def num_of_int_def Let_def)
  also have "(if i < 0 then - 1 else 1) * int ?s * 10 ^ t = (if i < 0 then - 1 else 1) * \<bar>i\<bar>"
    using v by (simp add: mult.assoc)
  also have "\<dots> = i" by simp
  finally show ?thesis .
qed

lemma waypoints_of_json: "those (map (waypoint_of_json \<circ> json_of_waypoint) ws) = Some ws"
  by (induction ws) (simp_all add: waypoint_of_json_def json_of_waypoint_def)

lemma route_of_json_of_route: "route_of_json (json_of_route r) = Some r"
  by (simp add: route_of_json_def json_of_route_def property_def str_def
      int_of_num_num_of_int waypoints_of_json)

lemma routes_of_json_of_routes: "routes_of_json (json_of_routes rs) = Some rs"
proof -
  have "those (map (route_of_json \<circ> json_of_route) rs) = Some rs"
    by (induction rs) (simp_all add: route_of_json_of_route)
  then show ?thesis by (simp add: routes_of_json_def json_of_routes_def)
qed

lemma is_array_routes: "is_array (json_of_routes rs)"
  by (simp add: is_array_def json_of_routes_def)

lemma mount_of_routes:
  assumes "load store = Inr (json_of_routes rs)"
  shows "mount random store =
    Mounted ((initial random store)
      \<lparr>routes := rs,
       localStorage := store(storage_key \<mapsto> stringify (json_of_routes rs))\<rparr>)"
  using assms
  by (simp add: mount_def routes_of_json_of_routes is_array_routes)

section \<open>Properties of the route store\<close>

subsection \<open>Deleting\<close>

text \<open>
  C2, as the source has it. \<open>handleDeleteRoute\<close> with an id that no saved route carries
  raises nothing and leaves the saved collection, the in-progress route and the recording
  flag as they were; the selection is not left as it was but set to none, and no alert is
  shown.
\<close>

theorem delete_absent_id:
  assumes "routeId \<notin> set (map route_id (routes w))"
  shows "routes (handleDeleteRoute routeId w) = routes w
    \<and> currentRoute (handleDeleteRoute routeId w) = currentRoute w
    \<and> isRecording (handleDeleteRoute routeId w) = isRecording w
    \<and> selectedRoute (handleDeleteRoute routeId w) = None
    \<and> alerts (handleDeleteRoute routeId w) = alerts w"
proof -
  from assms have "filter (\<lambda>route. route_id route \<noteq> routeId) (routes w) = routes w"
    by (induction "routes w") (auto simp: filter_id_conv)
  then show ?thesis
    by (simp add: handleDeleteRoute_def persist_def)
qed

theorem delete_absent_id_witness:
  "7 \<notin> set (map route_id (routes selected_once))
    \<and> routes (handleDeleteRoute 7 selected_once) = routes selected_once
    \<and> currentRoute (handleDeleteRoute 7 selected_once) = currentRoute selected_once
    \<and> isRecording (handleDeleteRoute 7 selected_once) = isRecording selected_once
    \<and> selectedRoute (handleDeleteRoute 7 selected_once) = None
    \<and> alerts (handleDeleteRoute 7 selected_once) = alerts selected_once"
proof -
  have h: "7 \<notin> set (map route_id (routes selected_once))"
    by (simp add: session_defs handler_defs)
  show ?thesis using h delete_absent_id [OF h] by simp
qed

text \<open>
  C2 as stated fails: in the example session the saved route with id 1 is selected, and
  deleting the unused id 7 changes the selection.
\<close>

theorem delete_absent_id_counterexample:
  "7 \<notin> set (map route_id (routes selected_once))
    \<and> selectedRoute (handleDeleteRoute 7 selected_once) \<noteq> selectedRoute selected_once"
  by (simp add: session_defs handler_defs)

text \<open>
  C10. \<open>handleDeleteRoute\<close> sets the selection to none for every state and every id,
  whether or not a route with that id exists and whatever was selected.
\<close>

theorem delete_clears_selection:
  "selectedRoute (handleDeleteRoute routeId w) = None"
  by (simp add: handleDeleteRoute_def persist_def)

subsection \<open>Saving\<close>

text \<open>
  C3. With fewer than two waypoints on the in-progress route, \<open>handleSaveRoute\<close> shows the
  validation message and changes nothing else: the saved collection, the in-progress
  route, the recording flag, the selection and \<open>localStorage\<close> are the same.
\<close>

theorem save_rejected:
  assumes "length (waypoints (currentRoute w)) < 2"
  shows "handleSaveRoute random w =
    w\<lparr>alerts := alerts w @ [str ''A route must have at least 2 waypoints!'']\<rparr>"
  using assms by (simp add: handleSaveRoute_def)

theorem save_rejected_witness:
  "length (waypoints (currentRoute mounted)) < 2
    \<and> handleSaveRoute zero_random mounted =
        mounted\<lparr>alerts := alerts mounted @ [str ''A route must have at least 2 waypoints!'']\<rparr>"
proof -
  have h: "length (waypoints (currentRoute mounted)) < 2"
    by (simp add: session_defs handler_defs)
  show ?thesis using h save_rejected [OF h] by simp
qed

lemma number_add_exact: "\<bar>a + b\<bar> \<le> 2 ^ 53 \<Longrightarrow> number_add a b = a + b"
  by (simp add: number_add_def round_to_double_def nat_le_iff)

text \<open>
  C4. With at least two waypoints, \<open>handleSaveRoute\<close> appends the in-progress route, as it
  is, to the end of the saved collection; the new in-progress route has the next id, an
  empty description and no waypoints; its name is \<open>Route\<close>, a space, and the decimal
  digits of the new id: digits only, no leading zero, and read as a decimal number they
  give the new id; recording is off. The ids are those of a session (from 1 on) for which
  the next integer is a Number, that is below \<open>2 ^ 53\<close>.
\<close>

theorem save_accepted:
  assumes "2 \<le> length (waypoints (currentRoute w))"
    and "0 \<le> route_id (currentRoute w)" and "route_id (currentRoute w) < 2 ^ 53"
  shows "routes (handleSaveRoute random w) = routes w @ [currentRoute w]
    \<and> route_id (currentRoute (handleSaveRoute random w)) = route_id (currentRoute w) + 1
    \<and> name (currentRoute (handleSaveRoute random w)) =
        str ''Route '' @ decimal (nat (route_id (currentRoute w) + 1))
    \<and> list_all is_digit (decimal (nat (route_id (currentRoute w) + 1)))
    \<and> hd (decimal (nat (route_id (currentRoute w) + 1))) \<noteq> 0x30
    \<and> int (nat_of_digits (decimal (nat (route_id (currentRoute w) + 1))))
        = route_id (currentRoute w) + 1
    \<and> description (currentRoute (handleSaveRoute random w)) = []
    \<and> waypoints (currentRoute (handleSaveRoute random w)) = []
    \<and> \<not> isRecording (handleSaveRoute random w)"
proof -
  let ?i = "route_id (currentRoute w) + 1"
  from assms(2,3) have add: "number_add (route_id (currentRoute w)) 1 = ?i"
    by (intro number_add_exact) simp
  from assms(2,3) have pos: "0 < ?i" and small: "?i < 10 ^ 21" by simp_all
  have "Number_toString (num_of_int ?i) = decimal (nat ?i)"
    using toString_integer [OF pos small] .
  moreover have "list_all is_digit (decimal (nat ?i))"
    by (simp add: list_all_iff is_digit_decimal)
  moreover have "hd (decimal (nat ?i)) \<noteq> 0x30"
    using pos by (intro hd_decimal) simp
  moreover have "int (nat_of_digits (decimal (nat ?i))) = ?i"
    using pos by (simp add: nat_of_digits_decimal)
  ultimately show ?thesis
    using assms(1) by (simp add: handleSaveRoute_def persist_def add)
qed

theorem save_accepted_witness:
  "2 \<le> length (waypoints (currentRoute recorded))
    \<and> 0 \<le> route_id (currentRoute recorded)
    \<and> route_id (currentRoute recorded) < 2 ^ 53
    \<and> routes (handleSaveRoute zero_random recorded) = routes recorded @ [currentRoute recorded]
    \<and> route_id (currentRoute recorded) = 1
    \<and> route_id (currentRoute (handleSaveRoute zero_random recorded)) = 2
    \<and> name (currentRoute (handleSaveRoute zero_random recorded)) = str ''Route 2''
    \<and> description (currentRoute (handleSaveRoute zero_random recorded)) = []
    \<and> waypoints (currentRoute (handleSaveRoute zero_random recorded)) = []
    \<and> \<not> isRecording (handleSaveRoute zero_random recorded)"
proof -
  have h: "2 \<le> length (waypoints (currentRoute recorded))"
    by (simp add: session_defs handler_defs)
  have i: "route_id (currentRoute recorded) = 1"
    by (simp add: session_defs handler_defs)
  have lo: "0 \<le> route_id (currentRoute recorded)"
    and hi: "route_id (currentRoute recorded) < 2 ^ 53"
    by (simp_all add: i)
  have d: "decimal 2 = str ''2''"
    by (simp add: decimal_def digits_of_small digit_unit_def str_def)
  show ?thesis
    using h i lo hi save_accepted [OF h lo hi, of zero_random]
    by (simp add: d) (simp add: str_def)
qed

subsection \<open>Ids\<close>

text \<open>
  Where the rounding of \<open>id + 1\<close> sets in: at \<open>2 ^ 53\<close> the sum is \<open>2 ^ 53\<close> again.
\<close>

lemma number_add_at_limit: "number_add 9007199254740992 1 = 9007199254740992"
  by (simp add: number_add_def round_to_double_def bit_length.simps)

lemma step_id_bounds:
  assumes "- (2 ^ 53) \<le> route_id (currentRoute w)" and "route_id (currentRoute w) < 2 ^ 53"
  shows "route_id (currentRoute w) \<le> route_id (currentRoute (step e w))
    \<and> route_id (currentRoute (step e w)) \<le> route_id (currentRoute w) + 1"
proof -
  from assms have "number_add (route_id (currentRoute w)) 1 = route_id (currentRoute w) + 1"
    by (intro number_add_exact) simp
  then show ?thesis
    by (cases e) (simp_all add: handler_defs split: input.split)
qed

lemma created_Cons:
  "r \<in> set (created (e # es) w) \<Longrightarrow>
   r \<in> set (created es (step e w))
   \<or> r = currentRoute (step e w)
     \<and> route_id r = number_add (route_id (currentRoute w)) 1"
  by (cases e) (auto simp: handleSaveRoute_def persist_def split: if_splits)

lemma created_above:
  "- (2 ^ 53) \<le> route_id (currentRoute w) \<Longrightarrow>
   route_id (currentRoute w) + int (length es) \<le> 2 ^ 53 \<Longrightarrow>
   r \<in> set (created es w) \<Longrightarrow> route_id (currentRoute w) < route_id r"
proof (induction es arbitrary: w)
  case Nil
  then show ?case by simp
next
  case (Cons e es)
  from Cons.prems(2) have hi: "route_id (currentRoute w) < 2 ^ 53" by simp
  note b = step_id_bounds [OF Cons.prems(1) hi, of e]
  from Cons.prems(3)
  have "r \<in> set (created es (step e w))
    \<or> r = currentRoute (step e w)
      \<and> route_id r = number_add (route_id (currentRoute w)) 1"
    by (rule created_Cons)
  then show ?case
  proof
    assume m: "r \<in> set (created es (step e w))"
    have lo': "- (2 ^ 53) \<le> route_id (currentRoute (step e w))"
      using b Cons.prems(1) by linarith
    have hi': "route_id (currentRoute (step e w)) + int (length es) \<le> 2 ^ 53"
      using b Cons.prems(2) by simp
    from Cons.IH [OF lo' hi' m] b show ?thesis by linarith
  next
    assume "r = currentRoute (step e w)
      \<and> route_id r = number_add (route_id (currentRoute w)) 1"
    then have "route_id r = number_add (route_id (currentRoute w)) 1" ..
    also have "\<dots> = route_id (currentRoute w) + 1"
      using Cons.prems(1) hi by (intro number_add_exact) simp
    finally show ?thesis by simp
  qed
qed

lemma created_sorted:
  "- (2 ^ 53) \<le> route_id (currentRoute w) \<Longrightarrow>
   route_id (currentRoute w) + int (length es) \<le> 2 ^ 53 \<Longrightarrow>
   sorted_wrt (<) (map route_id (created es w))"
proof (induction es arbitrary: w)
  case Nil
  then show ?case by simp
next
  case (Cons e es)
  from Cons.prems(2) have hi: "route_id (currentRoute w) < 2 ^ 53" by simp
  note b = step_id_bounds [OF Cons.prems(1) hi, of e]
  have lo': "- (2 ^ 53) \<le> route_id (currentRoute (step e w))"
    using b Cons.prems(1) by linarith
  have hi': "route_id (currentRoute (step e w)) + int (length es) \<le> 2 ^ 53"
    using b Cons.prems(2) by simp
  have s: "sorted_wrt (<) (map route_id (created es (step e w)))"
    by (rule Cons.IH [OF lo' hi'])
  have a: "\<And>r. r \<in> set (created es (step e w)) \<Longrightarrow>
      route_id (currentRoute (step e w)) < route_id r"
    by (rule created_above [OF lo' hi'])
  show ?case
    using s a by (cases e) auto
qed

text \<open>
  C5. Take any state \<open>w\<close> (the mount state, whose in-progress route has id 1, is one) and
  any sequence of events, deletions included, short enough for the ids to stay Numbers
  that hold every integer: the id of \<open>w\<close> plus the number of events is at most \<open>2 ^ 53\<close>.
  The ids of the in-progress route of \<open>w\<close> and of the in-progress routes created
  afterwards, in the order of their creation, increase strictly: each new id is greater
  than every id assigned before it, and none occurs twice.
\<close>

theorem ids_strictly_increasing:
  assumes "- (2 ^ 53) \<le> route_id (currentRoute w)"
    and "route_id (currentRoute w) + int (length es) \<le> 2 ^ 53"
  shows "sorted_wrt (<) (map route_id (currentRoute w # created es w))"
  using created_sorted [OF assms] created_above [OF assms] by auto

theorem ids_strictly_increasing_witness:
  "- (2 ^ 53) \<le> route_id (currentRoute recorded)
   \<and> route_id (currentRoute recorded)
       + int (length [SaveButton zero_random, DeleteButton 1, RecordButton, MapClick click1,
           MapClick click2, SaveButton zero_random]) \<le> 2 ^ 53
   \<and> map route_id (currentRoute recorded #
         created [SaveButton zero_random, DeleteButton 1, RecordButton, MapClick click1,
           MapClick click2, SaveButton zero_random] recorded) = [1, 2, 3]
   \<and> sorted_wrt (<) (map route_id (currentRoute recorded #
         created [SaveButton zero_random, DeleteButton 1, RecordButton, MapClick click1,
           MapClick click2, SaveButton zero_random] recorded))"
proof -
  have i: "route_id (currentRoute recorded) = 1"
    by (simp add: session_defs handler_defs)
  have lo: "- (2 ^ 53) \<le> route_id (currentRoute recorded)"
    by (simp add: i)
  have hi: "route_id (currentRoute recorded)
       + int (length [SaveButton zero_random, DeleteButton 1, RecordButton, MapClick click1,
           MapClick click2, SaveButton zero_random]) \<le> 2 ^ 53"
    by (simp add: i)
  have c: "map route_id (currentRoute recorded #
         created [SaveButton zero_random, DeleteButton 1, RecordButton, MapClick click1,
           MapClick click2, SaveButton zero_random] recorded) = [1, 2, 3]"
    by (simp add: session_defs handler_defs number_add_exact)
  show ?thesis
    using lo hi c ids_strictly_increasing [OF lo hi] by simp
qed

subsection \<open>The saved collection\<close>

lemma step_saved_ok: "saved_ok w \<Longrightarrow> saved_ok (step e w)"
  by (cases e) (auto simp: saved_ok_def handler_defs list_all_iff split: input.split)

lemma step_adds_ok:
  "r \<in> set (routes (step e w)) \<Longrightarrow> r \<notin> set (routes w) \<Longrightarrow> 2 \<le> length (waypoints r)"
  by (cases e) (auto simp: handler_defs split: input.splits if_splits)

lemma run_saved_ok: "saved_ok w \<Longrightarrow> saved_ok (run es w)"
  by (induction es arbitrary: w) (simp_all add: step_saved_ok)

text \<open>
  C6. If every saved route has at least two waypoints, this is so again after any event
  and after any sequence of events; and a route that an event adds to the saved
  collection has at least two waypoints.
\<close>

theorem saved_routes_have_two_waypoints:
  "(saved_ok w \<longrightarrow> saved_ok (step e w) \<and> saved_ok (run es w))
   \<and> (\<forall>r \<in> set (routes (step e w)). r \<in> set (routes w) \<or> 2 \<le> length (waypoints r))"
  using step_saved_ok run_saved_ok step_adds_ok by blast

theorem saved_routes_have_two_waypoints_witness:
  "saved_ok recorded
   \<and> saved_ok (step (SaveButton zero_random) recorded)
   \<and> saved_ok (run [SaveButton zero_random, DeleteButton 7] recorded)
   \<and> currentRoute recorded \<in> set (routes (step (SaveButton zero_random) recorded))
   \<and> currentRoute recorded \<notin> set (routes recorded)
   \<and> 2 \<le> length (waypoints (currentRoute recorded))"
proof -
  have h: "saved_ok recorded"
    by (simp add: saved_ok_def session_defs handler_defs)
  have m: "currentRoute recorded \<in> set (routes (step (SaveButton zero_random) recorded))"
    by (simp add: session_defs handler_defs)
  have n: "currentRoute recorded \<notin> set (routes recorded)"
    by (simp add: session_defs handler_defs)
  show ?thesis
    using h m n
      saved_routes_have_two_waypoints
        [of recorded "SaveButton zero_random" "[SaveButton zero_random, DeleteButton 7]"]
    by blast
qed

subsection \<open>Recording\<close>

lemma clicks_recording:
  "isRecording w \<Longrightarrow>
   run (map MapClick ps) w =
   w\<lparr>currentRoute := (currentRoute w)
        \<lparr>waypoints := waypoints (currentRoute w) @ map (\<lambda>p. (lat p, lng p)) ps\<rparr>\<rparr>"
  by (induction ps arbitrary: w) (simp_all add: handleAddWaypoint_def)

text \<open>
  C7. While recording, a sequence of map clicks appends the coordinate pairs of the
  clicks, in click order, to the waypoints of the in-progress route, so the sequence grows
  by the number of clicks, and the saved routes are untouched. A click while not
  recording leaves the whole state, and so every waypoint sequence, as it was.
\<close>

theorem clicks_append_in_order:
  "(isRecording w \<longrightarrow>
      waypoints (currentRoute (run (map MapClick ps) w)) =
        waypoints (currentRoute w) @ map (\<lambda>p. (lat p, lng p)) ps
      \<and> length (waypoints (currentRoute (run (map MapClick ps) w))) =
        length (waypoints (currentRoute w)) + length ps
      \<and> routes (run (map MapClick ps) w) = routes w)
   \<and> (\<not> isRecording w \<longrightarrow> handleAddWaypoint p w = w)"
  by (simp add: clicks_recording handleAddWaypoint_def)

theorem clicks_append_in_order_witness:
  "isRecording (step RecordButton mounted)
   \<and> waypoints (currentRoute (run (map MapClick [click1, click2]) (step RecordButton mounted))) =
       waypoints (currentRoute (step RecordButton mounted))
         @ map (\<lambda>p. (lat p, lng p)) [click1, click2]
   \<and> \<not> isRecording mounted
   \<and> handleAddWaypoint click1 mounted = mounted"
proof -
  have r: "isRecording (step RecordButton mounted)"
    by (simp add: session_defs handler_defs)
  have i: "\<not> isRecording mounted"
    by (simp add: session_defs handler_defs)
  show ?thesis
    using r i
      clicks_append_in_order [of "step RecordButton mounted" "[click1, click2]" click1]
      clicks_append_in_order [of mounted "[]" click1]
    by blast
qed

text \<open>
  C9. The record button only flips the recording flag: the saved collection, the
  in-progress route with the waypoints collected so far, the selection, \<open>localStorage\<close>
  and the alerts are the same before and after, in both directions of the flip.
\<close>

theorem toggle_only_flips_flag:
  "isRecording (toggleRecording w) = (\<not> isRecording w)
    \<and> routes (toggleRecording w) = routes w
    \<and> currentRoute (toggleRecording w) = currentRoute w
    \<and> waypoints (currentRoute (toggleRecording w)) = waypoints (currentRoute w)
    \<and> selectedRoute (toggleRecording w) = selectedRoute w
    \<and> localStorage (toggleRecording w) = localStorage w
    \<and> alerts (toggleRecording w) = alerts w"
  by (simp add: toggleRecording_def)

section \<open>The scenario of the specification\<close>

text \<open>
  After the two clicks and the save there is one saved route, with id 1 and the two
  waypoints in click order, and a fresh in-progress route with id 2. The text written to
  \<open>localStorage\<close> is the JSON text of that one route.
\<close>

lemma color_zero: "getRandomColor zero_random = str ''#000000''"
  by (simp add: getRandomColor_def zero_random_def letters_def str_def upt_conv_Cons)

lemma toString_two: "Number_toString (num_of_int 2) = str ''2''"
  by (simp add: num_of_int_def Number_toString_def decimal_def digits_of_small strip10_fixed
      digit_unit_def str_def)

lemma scenario_saved:
  "map route_id (routes saved_once) = [1]
   \<and> map waypoints (routes saved_once)
       = [[(Num False 479 2, Num True 918 2), (Num False 4791 2, Num True 9181 2)]]
   \<and> route_id (currentRoute saved_once) = 2
   \<and> name (currentRoute saved_once) = str ''Route '' @ str ''2''
   \<and> color (currentRoute saved_once) = str ''#000000''
   \<and> waypoints (currentRoute saved_once) = []
   \<and> \<not> isRecording saved_once"
  by (simp add: session_defs handler_defs color_zero toString_two number_add_exact)

lemma routes_saved_once:
  "routes saved_once =
     [\<lparr>route_id = 1, name = str ''Route 1'', color = getRandomColor zero_random,
       description = [],
       waypoints = [(Num False 479 2, Num True 918 2), (Num False 4791 2, Num True 9181 2)]\<rparr>]"
  by (simp add: session_defs handler_defs)

lemma toString_lat1: "Number_toString (Num False 479 2) = str ''47.9''"
  by (simp add: Number_toString_def decimal_def digits_of.simps digit_unit_def str_def)
lemma toString_lng1: "Number_toString (Num True 918 2) = str ''-91.8''"
  by (simp add: Number_toString_def decimal_def digits_of.simps digit_unit_def str_def)
lemma toString_lat2: "Number_toString (Num False 4791 2) = str ''47.91''"
  by (simp add: Number_toString_def decimal_def digits_of.simps digit_unit_def str_def)
lemma toString_lng2: "Number_toString (Num True 9181 2) = str ''-91.81''"
  by (simp add: Number_toString_def decimal_def digits_of.simps digit_unit_def str_def)
lemma toString_one: "Number_toString (num_of_int 1) = str ''1''"
  by (simp add: num_of_int_def strip10.simps Number_toString_def decimal_def digits_of.simps digit_unit_def str_def)
lemma quote_id: "QuoteJSONString (str ''id'') = quoted ''id''"
  by (simp add: QuoteJSONString_def quote_unit_def is_lead_def is_trail_def str_def quoted_def)
lemma quote_route1: "QuoteJSONString (str ''Route 1'') = quoted ''Route 1''"
  by (simp add: QuoteJSONString_def quote_unit_def is_lead_def is_trail_def str_def quoted_def)
lemma quote_description: "QuoteJSONString (str ''description'') = quoted ''description''"
  by (simp add: QuoteJSONString_def quote_unit_def is_lead_def is_trail_def str_def quoted_def)
lemma quote_black: "QuoteJSONString (str ''#000000'') = quoted ''#000000''"
  by (simp add: QuoteJSONString_def quote_unit_def is_lead_def is_trail_def str_def quoted_def)
lemma quote_waypoints: "QuoteJSONString (str ''waypoints'') = quoted ''waypoints''"
  by (simp add: QuoteJSONString_def quote_unit_def is_lead_def is_trail_def str_def quoted_def)
lemma quote_name: "QuoteJSONString (str ''name'') = quoted ''name''"
  by (simp add: QuoteJSONString_def quote_unit_def is_lead_def is_trail_def str_def quoted_def)
lemma quote_color: "QuoteJSONString (str ''color'') = quoted ''color''"
  by (simp add: QuoteJSONString_def quote_unit_def is_lead_def is_trail_def str_def quoted_def)
lemma quote_empty: "QuoteJSONString [] = quoted []"
  by (simp add: QuoteJSONString_def str_def quoted_def)

lemma scenario_json:
  "stringify (json_of_routes (routes saved_once)) = scenario_text"
  unfolding routes_saved_once color_zero json_of_routes_def json_of_route_def
    json_of_waypoint_def scenario_text_def
  by (simp add: toString_lat1 toString_lng1 toString_lat2 toString_lng2 toString_one
        quote_id quote_route1 quote_description quote_black quote_waypoints quote_name
        quote_color quote_empty)
     (simp add: str_def)

section \<open>Loading and persisting\<close>

lemma mount_empty: "mount zero_random Map.empty = Mounted mounted"
  by (simp add: mount_def load_def is_array_def routes_of_json_def json_of_routes_def
      mounted_def persist_def initial_def)

text \<open>
  C8. Let the saved collection be written under the fixed key, as the effect on \<open>routes\<close>
  does, and then read back, as the load at mount does. The load raises nothing and yields
  the JSON value of the same collection, and of no other collection; read by its
  properties, the loaded value gives back the same routes in the same order, each with
  its id, name, colour, description and waypoints; and the component mounts with that
  collection as its saved collection. The coordinates of the collection are taken in
  their canonical form, which every finite Number has.
\<close>

theorem persist_load_round_trip:
  assumes "list_all canonical_route (routes w)"
  shows "load (localStorage (persist w)) = Inr (json_of_routes (routes w))
    \<and> (\<forall>rs. load (localStorage (persist w)) = Inr (json_of_routes rs) \<longrightarrow> rs = routes w)
    \<and> map_sum id routes_of_json (load (localStorage (persist w))) = Inr (Some (routes w))
    \<and> mount random (localStorage (persist w)) =
        Mounted ((initial random (localStorage (persist w)))\<lparr>routes := routes w\<rparr>)"
proof -
  have "JSON_parse (stringify (json_of_routes (routes w))) = Inr (json_of_routes (routes w))"
    using assms by (intro JSON_parse_stringify well_formed_routes)
  then have l: "load (localStorage (persist w)) = Inr (json_of_routes (routes w))"
    by (simp add: load_def persist_def stringify_routes_nonempty)
  have s: "(localStorage (persist w))
      (storage_key \<mapsto> stringify (json_of_routes (routes w))) = localStorage (persist w)"
    by (simp add: persist_def)
  have "mount random (localStorage (persist w)) =
        Mounted ((initial random (localStorage (persist w)))\<lparr>routes := routes w\<rparr>)"
    using mount_of_routes [OF l, of random] by (simp only: s) (simp add: initial_def)
  with l show ?thesis
    by (auto simp: routes_of_json_of_routes dest: json_of_routes_inject)
qed

theorem persist_load_round_trip_witness:
  "list_all canonical_route (routes saved_once)
   \<and> map route_id (routes saved_once) = [1]
   \<and> localStorage (persist saved_once) storage_key = Some scenario_text
   \<and> load (localStorage (persist saved_once)) = Inr (json_of_routes (routes saved_once))
   \<and> map_sum id routes_of_json (load (localStorage (persist saved_once)))
       = Inr (Some (routes saved_once))
   \<and> mount zero_random (localStorage (persist saved_once)) =
        Mounted ((initial zero_random (localStorage (persist saved_once)))
          \<lparr>routes := routes saved_once\<rparr>)"
proof -
  have h: "list_all canonical_route (routes saved_once)"
    by (simp add: routes_saved_once canonical_route_def canonical_waypoint_def canonical_def)
  have n: "map route_id (routes saved_once) = [1]"
    by (simp add: routes_saved_once)
  have t: "localStorage (persist saved_once) storage_key = Some scenario_text"
    by (simp add: persist_def scenario_json)
  note r = persist_load_round_trip [OF h, of zero_random]
  from r have r1: "load (localStorage (persist saved_once))
      = Inr (json_of_routes (routes saved_once))"
    by (rule conjunct1)
  from r have r3: "map_sum id routes_of_json (load (localStorage (persist saved_once)))
      = Inr (Some (routes saved_once))"
    by blast
  from r have r4: "mount zero_random (localStorage (persist saved_once)) =
        Mounted ((initial zero_random (localStorage (persist saved_once)))
          \<lparr>routes := routes saved_once\<rparr>)"
    by blast
  show ?thesis
    by (intro conjI h n t r1 r3 r4)
qed

text \<open>
  C1, as the source has it. With nothing stored under the key, or with the empty string
  there, the component mounts with an empty saved collection and raises nothing. With
  the text of a collection that the component persisted, it mounts with that collection.
  Any other text that is not empty goes to \<open>JSON.parse\<close>: if it is malformed, the
  \<open>SyntaxError\<close> leaves the load, uncaught; if it is valid, the parsed value is put into
  \<open>routes\<close> as it is, and when it is not an array the next render raises a \<open>TypeError\<close>.
\<close>

theorem mount_absent_or_malformed:
  "(store storage_key = None \<or> store storage_key = Some []
      \<longrightarrow> mount random store = Mounted (persist (initial random store))
        \<and> routes (persist (initial random store)) = [])
   \<and> (store storage_key = Some s \<and> s \<noteq> [] \<and> JSON_parse s = Inl SyntaxError
      \<longrightarrow> load store = Inl SyntaxError \<and> mount random store = Raised SyntaxError)
   \<and> (store storage_key = Some s \<and> s \<noteq> [] \<and> JSON_parse s = Inr v
      \<longrightarrow> load store = Inr v)
   \<and> (store storage_key = Some s \<and> s \<noteq> [] \<and> JSON_parse s = Inr v \<and> \<not> is_array v
      \<longrightarrow> mount random store = Raised TypeError)
   \<and> (store storage_key = Some (stringify (json_of_routes rs)) \<and> list_all canonical_route rs
      \<longrightarrow> mount random store = Mounted ((initial random store)\<lparr>routes := rs\<rparr>))"
proof -
  have a: "mount random store = Mounted (persist (initial random store))"
    if "store storage_key = None \<or> store storage_key = Some []"
    using that
    by (auto simp: mount_def load_def is_array_def routes_of_json_def json_of_routes_def
        persist_def initial_def)
  have b: "mount random store = Mounted ((initial random store)\<lparr>routes := rs\<rparr>)"
    if k: "store storage_key = Some (stringify (json_of_routes rs))"
      and c: "list_all canonical_route rs"
  proof -
    have "JSON_parse (stringify (json_of_routes rs)) = Inr (json_of_routes rs)"
      using c by (intro JSON_parse_stringify well_formed_routes)
    with k have l: "load store = Inr (json_of_routes rs)"
      by (simp add: load_def stringify_routes_nonempty)
    from k have s: "store(storage_key \<mapsto> stringify (json_of_routes rs)) = store"
      by (rule fun_upd_idem)
    show ?thesis
      using mount_of_routes [OF l, of random] by (simp only: s) (simp add: initial_def)
  qed
  have e: "routes (persist (initial random store)) = []"
    by (simp add: persist_def initial_def)
  show ?thesis
    using a b e by (auto simp: mount_def load_def)
qed

theorem mount_absent_or_malformed_witness:
  "mount zero_random Map.empty = Mounted (persist (initial zero_random Map.empty))
   \<and> routes (persist (initial zero_random Map.empty)) = []
   \<and> mount zero_random [storage_key \<mapsto> []]
       = Mounted (persist (initial zero_random [storage_key \<mapsto> []]))
   \<and> JSON_parse (str ''{'') = Inl SyntaxError
   \<and> mount zero_random [storage_key \<mapsto> str ''{''] = Raised SyntaxError
   \<and> JSON_parse (str ''null'') = Inr JNull
   \<and> load [storage_key \<mapsto> str ''null''] = Inr JNull
   \<and> mount zero_random [storage_key \<mapsto> str ''null''] = Raised TypeError
   \<and> list_all canonical_route (routes saved_once)
   \<and> mount zero_random [storage_key \<mapsto> stringify (json_of_routes (routes saved_once))]
       = Mounted ((initial zero_random
                    [storage_key \<mapsto> stringify (json_of_routes (routes saved_once))])
                  \<lparr>routes := routes saved_once\<rparr>)"
proof -
  have m: "JSON_parse (str ''{'') = Inl SyntaxError" by code_simp
  have v: "JSON_parse (str ''null'') = Inr JNull" by code_simp
  have ne: "str ''{'' \<noteq> []" "str ''null'' \<noteq> []" by (simp_all add: str_def)
  have na: "\<not> is_array JNull" by (simp add: is_array_def)
  have e: "routes (persist (initial zero_random Map.empty)) = []"
    by (simp add: persist_def initial_def)
  have h: "list_all canonical_route (routes saved_once)"
    by (simp add: routes_saved_once canonical_route_def canonical_waypoint_def canonical_def)
  let ?t = "stringify (json_of_routes (routes saved_once))"
  have k0: "Map.empty storage_key = None \<or> Map.empty storage_key = Some []"
    by simp
  have k1: "[storage_key \<mapsto> []] storage_key = None
      \<or> [storage_key \<mapsto> []] storage_key = Some []"
    by simp
  have k2: "[storage_key \<mapsto> str ''{''] storage_key = Some (str ''{'') \<and> str ''{'' \<noteq> []
      \<and> JSON_parse (str ''{'') = Inl SyntaxError"
    using m ne by simp
  have k3: "[storage_key \<mapsto> str ''null''] storage_key = Some (str ''null'')
      \<and> str ''null'' \<noteq> [] \<and> JSON_parse (str ''null'') = Inr JNull"
    using v ne by simp
  have k4: "[storage_key \<mapsto> str ''null''] storage_key = Some (str ''null'')
      \<and> str ''null'' \<noteq> [] \<and> JSON_parse (str ''null'') = Inr JNull \<and> \<not> is_array JNull"
    using v ne na by simp
  have k5: "[storage_key \<mapsto> ?t] storage_key = Some ?t
      \<and> list_all canonical_route (routes saved_once)"
    using h by simp
  have c0: "mount zero_random Map.empty = Mounted (persist (initial zero_random Map.empty))"
    using mount_absent_or_malformed [of Map.empty zero_random] k0 by blast
  have c1: "mount zero_random [storage_key \<mapsto> []]
       = Mounted (persist (initial zero_random [storage_key \<mapsto> []]))"
    using mount_absent_or_malformed [of "[storage_key \<mapsto> []]" zero_random] k1 by blast
  have c2: "mount zero_random [storage_key \<mapsto> str ''{''] = Raised SyntaxError"
    using mount_absent_or_malformed [of "[storage_key \<mapsto> str ''{'']" zero_random "str ''{''"]
      k2 by blast
  have c3: "load [storage_key \<mapsto> str ''null''] = Inr JNull"
    using mount_absent_or_malformed
      [of "[storage_key \<mapsto> str ''null'']" zero_random "str ''null''" JNull] k3 by blast
  have c4: "mount zero_random [storage_key \<mapsto> str ''null''] = Raised TypeError"
    using mount_absent_or_malformed
      [of "[storage_key \<mapsto> str ''null'']" zero_random "str ''null''" JNull] k4 by blast
  have c5: "mount zero_random [storage_key \<mapsto> ?t]
       = Mounted ((initial zero_random [storage_key \<mapsto> ?t])\<lparr>routes := routes saved_once\<rparr>)"
    using mount_absent_or_malformed
      [of "[storage_key \<mapsto> ?t]" zero_random _ _ "routes saved_once"] k5 by blast
  show ?thesis
    by (intro conjI c0 e c1 m c2 v c3 c4 h c5)
qed

text \<open>
  C1 as stated fails: with the text \<open>undefined\<close> under the key the load raises; with the
  text \<open>5\<close> the load puts the number 5 into \<open>routes\<close> and the render raises; with the text
  \<open>[5]\<close> the saved collection is not empty.
\<close>

theorem mount_malformed_counterexample:
  "mount zero_random [storage_key \<mapsto> str ''undefined''] = Raised SyntaxError
   \<and> load [storage_key \<mapsto> str ''5''] = Inr (JNum (Num False 5 1))
   \<and> mount zero_random [storage_key \<mapsto> str ''5''] = Raised TypeError
   \<and> load [storage_key \<mapsto> str ''[5]''] = Inr (JArr [JNum (Num False 5 1)])"
proof -
  have u: "JSON_parse (str ''undefined'') = Inl SyntaxError" by code_simp
  have f: "JSON_parse (str ''5'') = Inr (JNum (Num False 5 1))" by code_simp
  have g: "JSON_parse (str ''[5]'') = Inr (JArr [JNum (Num False 5 1)])" by code_simp
  have ne: "str ''undefined'' \<noteq> []" "str ''5'' \<noteq> []" "str ''[5]'' \<noteq> []"
    by (simp_all add: str_def)
  show ?thesis
    using u f g ne by (simp add: mount_def load_def is_array_def)
qed

end
